theory Spec2Isabelle
  imports Complex_Main
begin

section \<open>Python string primitives used by \<^verbatim>\<open>pdf_processor.py\<close>\<close>

text \<open>
  Text is modelled as \<^typ>\<open>string\<close>, one \<^typ>\<open>char\<close> per character, and the
  string methods are given on ASCII text: \<open>lower\<close> maps \<open>A\<close>..\<open>Z\<close> to \<open>a\<close>..\<open>z\<close>
  and leaves every other character alone, and \<open>strip\<close> removes the ASCII white space
  characters. The general proofs below use no property of \<open>lower\<close>, \<open>strip\<close> or
  \<open>splitlines\<close>; only the examples evaluate them.
\<close>

definition lower_char :: "char \<Rightarrow> char" where
  "lower_char c =
     (case map_of (zip ''ABCDEFGHIJKLMNOPQRSTUVWXYZ'' ''abcdefghijklmnopqrstuvwxyz'') c of
        None \<Rightarrow> c
      | Some d \<Rightarrow> d)"

definition lower :: "string \<Rightarrow> string" where
  "lower s = map lower_char s"

definition startswith :: "string \<Rightarrow> string \<Rightarrow> bool" where
  \<comment> \<open>\<^verbatim>\<open>s.startswith(p)\<close>\<close>
  "startswith s p = (take (length p) s = p)"

fun is_in :: "string \<Rightarrow> string \<Rightarrow> bool" where
  \<comment> \<open>\<^verbatim>\<open>pat in s\<close> on two strings: \<open>pat\<close> occurs in \<open>s\<close> as a contiguous run\<close>
  "is_in pat [] = (pat = [])"
| "is_in pat (c # cs) = (startswith (c # cs) pat \<or> is_in pat cs)"

definition is_space :: "char \<Rightarrow> bool" where
  \<comment> \<open>the ASCII characters \<^verbatim>\<open>str.isspace\<close> accepts: tab, LF, VT, FF, CR, FS, GS, RS, US, space\<close>
  "is_space c = (of_char c \<in> {9, 10, 11, 12, 13, 28, 29, 30, 31, 32 :: nat})"

definition strip :: "string \<Rightarrow> string" where
  \<comment> \<open>\<^verbatim>\<open>s.strip()\<close>\<close>
  "strip s = rev (dropWhile is_space (rev (dropWhile is_space s)))"

fun join :: "string \<Rightarrow> string list \<Rightarrow> string" where
  \<comment> \<open>\<^verbatim>\<open>sep.join(xs)\<close>\<close>
  "join sep [] = []"
| "join sep [x] = x"
| "join sep (x # y # ys) = x @ sep @ join sep (y # ys)"

section \<open>Gift message snippet: the first/second occurrence window\<close>

definition re_search_gift_message :: "string \<Rightarrow> bool" where
  \<comment> \<open>\<^verbatim>\<open>re.search(r"gift message", line, re.IGNORECASE)\<close>: the pattern is a literal\<close>
  "re_search_gift_message line = is_in ''gift message'' (lower line)"

text \<open>
  The loop over \<open>lines\<close> of \<open>process_pdf_file\<close> (source lines 329 to 340), with its two
  variables \<open>capturing\<close> and \<open>captured_lines\<close> as arguments; \<open>break\<close> returns what has
  been captured.
\<close>

fun capture_loop :: "bool \<Rightarrow> string list \<Rightarrow> string list \<Rightarrow> string list" where
  "capture_loop capturing captured_lines [] = captured_lines"
| "capture_loop capturing captured_lines (line # lines) =
     (if re_search_gift_message line then
        (if \<not> capturing then capture_loop True (captured_lines @ [line]) lines
         else captured_lines)
      else if capturing then capture_loop capturing (captured_lines @ [line]) lines
      else capture_loop capturing captured_lines lines)"

definition capture_lines :: "string list \<Rightarrow> string list" where
  "capture_lines lines = capture_loop False [] lines"

section \<open>Geometry\<close>

text \<open>
  A \<^verbatim>\<open>fitz.Rect\<close>: corner coordinates in points, \<open>y\<close> growing downward (the top of
  the page is \<open>y = 0\<close>). The source computes on floats; the model computes on reals.
\<close>

record rect =
  x0 :: real
  y0 :: real
  x1 :: real
  y1 :: real

definition Rect :: "real \<Rightarrow> real \<Rightarrow> real \<Rightarrow> real \<Rightarrow> rect" where
  "Rect a b c d = \<lparr>x0 = a, y0 = b, x1 = c, y1 = d\<rparr>"

definition width :: "rect \<Rightarrow> real" where
  "width r = x1 r - x0 r"

definition height :: "rect \<Rightarrow> real" where
  "height r = y1 r - y0 r"

datatype py_error = ValueError | ZeroDivisionError | IndexError

section \<open>Page composer\<close>

text \<open>
  A page of the input document, as far as the composer reads it: its rectangle, and
  whether \<^verbatim>\<open>show_pdf_page\<close> raises \<^verbatim>\<open>ValueError\<close> for it (the page has nothing to
  show). An output sheet is the list of the \<^verbatim>\<open>show_pdf_page\<close> calls that succeeded on
  it, in order; each call is recorded with the \<open>target_rect\<close> that was passed to
  \<open>place_page_full\<close>.
\<close>

record in_page =
  page_rect :: rect
  nothing_to_show :: bool

record placement =
  target_rect :: rect
  in_page_index :: nat
  show_rect :: rect

type_synonym sheet = "placement list"

definition place_page_full :: "in_page list \<Rightarrow> nat \<Rightarrow> rect \<Rightarrow> py_error + placement" where
  "place_page_full doc_in i target =
     (if \<not> i < length doc_in then Inl IndexError
      else
        let in_rect = page_rect (doc_in ! i) in
        if width in_rect = 0 \<or> height in_rect = 0 then Inl ZeroDivisionError
        else
          let scale = min (width target / width in_rect) (height target / height in_rect);
              new_w = width in_rect * scale;
              new_h = height in_rect * scale;
              left = x0 target + (width target - new_w) / 2;
              top = y0 target
          in if nothing_to_show (doc_in ! i) then Inl ValueError
             else Inr \<lparr>target_rect = target, in_page_index = i,
                        show_rect = Rect left top (left + new_w) (top + new_h)\<rparr>)"

definition try_place :: "in_page list \<Rightarrow> nat \<Rightarrow> rect \<Rightarrow> sheet \<Rightarrow> py_error + sheet" where
  \<comment> \<open>\<^verbatim>\<open>try: place_page_full(new_page, doc_in, i, target) except ValueError: pass\<close>\<close>
  "try_place doc_in i target new_page =
     (case place_page_full doc_in i target of
        Inr p \<Rightarrow> Inr (new_page @ [p])
      | Inl ValueError \<Rightarrow> Inr new_page
      | Inl e \<Rightarrow> Inl e)"

definition page_width_2up :: real where "page_width_2up = 842"
definition page_height_2up :: real where "page_height_2up = 595"

definition left_rect :: rect where
  "left_rect = Rect 0 0 (page_width_2up / 2) page_height_2up"

definition right_rect :: rect where
  "right_rect = Rect (page_width_2up / 2) 0 page_width_2up page_height_2up"

text \<open>The loop \<^verbatim>\<open>for i in range(0, num_pages, 2)\<close> of \<open>create_two_up_pdf\<close>.\<close>

function two_up_loop :: "in_page list \<Rightarrow> nat \<Rightarrow> sheet list \<Rightarrow> py_error + sheet list" where
  "two_up_loop doc_in i doc_out =
     (if i < length doc_in then
        (case try_place doc_in i left_rect [] of
           Inl e \<Rightarrow> Inl e
         | Inr new_page \<Rightarrow>
             (case (if i + 1 < length doc_in then try_place doc_in (i + 1) right_rect new_page
                    else Inr new_page) of
                Inl e \<Rightarrow> Inl e
              | Inr new_page' \<Rightarrow> two_up_loop doc_in (i + 2) (doc_out @ [new_page'])))
      else Inr doc_out)"
  by pat_completeness auto
termination
  by (relation "measure (\<lambda>(doc_in, i, doc_out). length doc_in - i)") auto

declare two_up_loop.simps [simp del]

text \<open>
  \<open>create_two_up_pdf\<close>: \<open>Inr None\<close> is the early return that saves nothing,
  \<open>Inr (Some sheets)\<close> the document that is saved, \<open>Inl e\<close> an exception that leaves
  the function.
\<close>

definition create_two_up_pdf :: "in_page list \<Rightarrow> py_error + sheet list option" where
  "create_two_up_pdf doc_in =
     (if length doc_in = 0 then Inr None
      else (case two_up_loop doc_in 0 [] of Inl e \<Rightarrow> Inl e | Inr doc_out \<Rightarrow> Inr (Some doc_out)))"

definition columns :: nat where "columns = 3"
definition rows :: nat where "rows = 2"
definition thumbs_per_page :: nat where "thumbs_per_page = columns * rows"
definition page_width_thumb :: real where "page_width_thumb = 595"
definition page_height_thumb :: real where "page_height_thumb = 842"
definition slot_w :: real where "slot_w = page_width_thumb / real columns"
definition slot_h :: real where "slot_h = page_height_thumb / real rows"

definition slot_rect :: "nat \<Rightarrow> rect" where
  \<comment> \<open>the \<open>target_rect\<close> of position \<open>i\<close> of a chunk\<close>
  "slot_rect i =
     (let row = i div columns; col = i mod columns;
          sx0 = real col * slot_w; sy0 = real row * slot_h
      in Rect sx0 sy0 (sx0 + slot_w) (sy0 + slot_h))"

text \<open>The loop \<^verbatim>\<open>for i, src_page_index in enumerate(chunk)\<close>.\<close>

fun chunk_loop :: "in_page list \<Rightarrow> (nat \<times> nat) list \<Rightarrow> sheet \<Rightarrow> py_error + sheet" where
  "chunk_loop doc_in [] new_page = Inr new_page"
| "chunk_loop doc_in ((i, src_page_index) # rest) new_page =
     (case try_place doc_in src_page_index (slot_rect i) new_page of
        Inl e \<Rightarrow> Inl e
      | Inr new_page' \<Rightarrow> chunk_loop doc_in rest new_page')"

definition enumerate_list :: "'a list \<Rightarrow> (nat \<times> 'a) list" where
  "enumerate_list xs = zip [0..<length xs] xs"

text \<open>The loop \<^verbatim>\<open>for start_idx in range(0, len(page_indexes), thumbs_per_page)\<close>.\<close>

function thumb_loop :: "in_page list \<Rightarrow> nat list \<Rightarrow> nat \<Rightarrow> sheet list \<Rightarrow> py_error + sheet list" where
  "thumb_loop doc_in page_indexes start_idx doc_out =
     (if start_idx < length page_indexes then
        (let chunk = take thumbs_per_page (drop start_idx page_indexes) in
         case chunk_loop doc_in (enumerate_list chunk) [] of
           Inl e \<Rightarrow> Inl e
         | Inr new_page \<Rightarrow>
             thumb_loop doc_in page_indexes (start_idx + thumbs_per_page) (doc_out @ [new_page]))
      else Inr doc_out)"
  by pat_completeness auto
termination
  by (relation "measure (\<lambda>(doc_in, page_indexes, start_idx, doc_out). length page_indexes - start_idx)")
     (auto simp: thumbs_per_page_def columns_def rows_def)

declare thumb_loop.simps [simp del]

definition create_six_page_thumbnail_pdf :: "in_page list \<Rightarrow> py_error + sheet list option" where
  "create_six_page_thumbnail_pdf doc_in =
     (if length doc_in < 2 then Inr None
      else (case thumb_loop doc_in [1..<length doc_in] 0 [] of
              Inl e \<Rightarrow> Inl e
            | Inr doc_out \<Rightarrow> Inr (Some doc_out)))"

section \<open>\<open>process_pdf_file\<close>: data\<close>

text \<open>
  A word is the tuple \<open>(x0, y0, x1, y1, text)\<close> of \<^verbatim>\<open>page.get_text("words")\<close>, a line the
  triple \<open>(line_text, line_rect, word_list)\<close> that \<open>get_lines\<close> returns, a block the
  rectangle and text of an entry of \<^verbatim>\<open>page.get_text("blocks")\<close>. The scans below take the
  list that \<open>get_lines(page)\<close> returned as their input.
\<close>

record word =
  w_rect :: rect
  wtext :: string

record line =
  line_text :: string
  line_rect :: rect
  word_list :: "word list"

record block =
  block_rect :: rect
  btext :: string

record options =
  crop_pages :: bool
  highlight_gmi :: bool
  highlight_gift_snippet :: bool
  extract_text :: bool
  highlight_personalization :: bool
  highlight_quantity :: bool
  add_stamps :: bool
  apply_watermark :: bool
  generate_2up_thumbs :: bool

datatype color = purple_color | yellow_color

text \<open>
  A paragraph of a Word document is the page number of its bold run \<open>[Page n]\<close> and
  its text; a highlight annotation is its rectangle and stroke colour.
\<close>

type_synonym docx_paragraph = "nat \<times> string"
type_synonym annot = "rect \<times> color"

definition personalization_marker :: string where
  "personalization_marker = ''personalization:''"

definition item_descriptors :: "string list" where
  "item_descriptors = [''word or message:'', ''word or mssg:'', ''morse code:'']"

definition stop_keywords :: "string list" where
  "stop_keywords =
     [''size:'', ''word or mssg:'', ''word or message:'', ''morse code:'', ''quantity:'',
      ''sku:'', ''private notes'', ''scheduled to ship by'', ''note from buyer'',
      ''do the green thing'', ''reuse this paper to make origami, confetti'',
      ''or your next to-do list.'']"

section \<open>\<open>process_pdf_file\<close> (C): the gift message snippet\<close>

definition expand_left :: real where "expand_left = 36"
definition expand_right :: real where "expand_right = 36"
definition expand_up :: real where "expand_up = 72"
definition expand_down :: real where "expand_down = 216"

definition expanded_rect :: "rect \<Rightarrow> rect" where
  "expanded_rect inst =
     Rect (x0 inst - expand_left) (y0 inst - expand_down)
          (x1 inst + expand_right) (y1 inst + expand_up)"

definition excluded_zones_inch :: "(real \<times> real \<times> real \<times> real) list" where
  "excluded_zones_inch =
     [(4313 / 10000, 23914 / 10000, 10544 / 1000, 17479 / 10000),
      (23784 / 10000, 83065 / 10000, 9743 / 1000, 71824 / 10000)]"

definition inches_to_points :: "real \<Rightarrow> real" where
  "inches_to_points inches = inches * 72"

definition inches_to_rect :: "real \<Rightarrow> real \<Rightarrow> real \<Rightarrow> real \<Rightarrow> real \<Rightarrow> rect" where
  \<comment> \<open>the first argument is \<open>page.rect.height\<close>\<close>
  "inches_to_rect page_h left_in right_in top_in bottom_in =
     (let ax0 = inches_to_points left_in;
          ax1 = inches_to_points right_in;
          ay0 = page_h - inches_to_points top_in;
          ay1 = page_h - inches_to_points bottom_in
      in Rect (min ax0 ax1) (min ay0 ay1) (max ax0 ax1) (max ay0 ay1))"

definition get_excluded_rects :: "real \<Rightarrow> rect list" where
  "get_excluded_rects page_h =
     map (\<lambda>(lft, rgt, top, bot). inches_to_rect page_h lft rgt top bot) excluded_zones_inch"

definition is_linebreak :: "char \<Rightarrow> bool" where
  \<comment> \<open>the ASCII line boundaries of \<^verbatim>\<open>str.splitlines\<close>: LF, VT, FF, CR, FS, GS, RS\<close>
  "is_linebreak c = (of_char c \<in> {10, 11, 12, 13, 28, 29, 30 :: nat})"

fun splitlines_from :: "string \<Rightarrow> string \<Rightarrow> string list" where
  \<comment> \<open>the first argument is the line read so far\<close>
  "splitlines_from cur [] = (if cur = [] then [] else [cur])"
| "splitlines_from cur [c] = (if is_linebreak c then [cur] else [cur @ [c]])"
| "splitlines_from cur (c # d # ds) =
     (if c = CHR 0x0D \<and> d = CHR 0x0A then cur # splitlines_from [] ds
      else if is_linebreak c then cur # splitlines_from [] (d # ds)
      else splitlines_from (cur @ [c]) (d # ds))"

definition splitlines :: "string \<Rightarrow> string list" where
  \<comment> \<open>\<^verbatim>\<open>s.splitlines()\<close>\<close>
  "splitlines s = splitlines_from [] s"

text \<open>
  What \<open>process_pdf_file\<close> reads of a content page: \<open>page.rect\<close>, the hits of
  \<^verbatim>\<open>page.search_for("gift message", flags=1)\<close>, \<^verbatim>\<open>page.get_text("blocks")\<close> and
  \<open>get_lines(page)\<close>. \<^verbatim>\<open>Rect.intersects\<close> belongs to the PDF library and is a
  parameter of the model.
\<close>

record page =
  pg_rect :: rect
  pg_gift_hits :: "rect list"
  pg_blocks :: "block list"
  pg_lines :: "line list"

definition snippet_blocks :: "(rect \<Rightarrow> rect \<Rightarrow> bool) \<Rightarrow> page \<Rightarrow> rect \<Rightarrow> (string \<times> rect) list" where
  "snippet_blocks intersects pg inst =
     map (\<lambda>b. (strip (btext b), block_rect b))
       (filter (\<lambda>b. intersects (block_rect b) (expanded_rect inst) \<and>
                     \<not> list_ex (\<lambda>exr. intersects (block_rect b) exr)
                          (get_excluded_rects (height (pg_rect pg))))
          (pg_blocks pg))"

definition final_text :: "(rect \<Rightarrow> rect \<Rightarrow> bool) \<Rightarrow> page \<Rightarrow> rect \<Rightarrow> string" where
  "final_text intersects pg inst =
     (let snippet_text = join [CHR 0x0A] (map fst (snippet_blocks intersects pg inst));
          lines = splitlines snippet_text;
          captured_lines = capture_lines lines
      in strip (join [CHR 0x0A] captured_lines))"

text \<open>
  The extraction half of the loop \<^verbatim>\<open>for inst in hits\<close>: the set
  \<open>gift_messages_per_page[page_index]\<close> and the paragraphs of \<open>gift_doc\<close>. A \<open>gift_doc\<close>
  exists exactly when \<open>extract_text\<close> is set.
\<close>

record gift_state =
  seen :: "string set"
  gift_doc :: "docx_paragraph list"

definition record_gift :: "options \<Rightarrow> nat \<Rightarrow> string \<Rightarrow> gift_state \<Rightarrow> gift_state" where
  "record_gift opts page_index txt st =
     (if txt \<noteq> [] \<and> extract_text opts then
        (if txt \<notin> seen st then
           st\<lparr>seen := insert txt (seen st), gift_doc := gift_doc st @ [(page_index, txt)]\<rparr>
         else st)
      else st)"

fun hits_loop ::
  "(rect \<Rightarrow> rect \<Rightarrow> bool) \<Rightarrow> options \<Rightarrow> nat \<Rightarrow> page \<Rightarrow> rect list \<Rightarrow> gift_state \<Rightarrow> gift_state" where
  "hits_loop intersects opts page_index pg [] st = st"
| "hits_loop intersects opts page_index pg (inst # hits) st =
     hits_loop intersects opts page_index pg hits
       (record_gift opts page_index (final_text intersects pg inst) st)"

definition gift_page ::
  "(rect \<Rightarrow> rect \<Rightarrow> bool) \<Rightarrow> options \<Rightarrow> nat \<Rightarrow> page \<Rightarrow> docx_paragraph list \<Rightarrow> docx_paragraph list" where
  \<comment> \<open>\<open>gift_messages_per_page[page_index] = set()\<close>, then the loop over the hits\<close>
  "gift_page intersects opts page_index pg doc =
     (if highlight_gift_snippet opts \<or> extract_text opts then
        gift_doc (hits_loop intersects opts page_index pg (pg_gift_hits pg)
                    \<lparr>seen = {}, gift_doc = doc\<rparr>)
      else doc)"

section \<open>\<open>process_pdf_file\<close> (D): personalization blocks\<close>

definition is_descriptor :: "line \<Rightarrow> bool" where
  \<comment> \<open>\<^verbatim>\<open>any(desc in lower_line for desc in item_descriptors)\<close>\<close>
  "is_descriptor l = list_ex (\<lambda>desc. is_in desc (lower (line_text l))) item_descriptors"

definition has_custom :: "line \<Rightarrow> bool" where
  \<comment> \<open>\<^verbatim>\<open>"custom" in lower_line\<close>\<close>
  "has_custom l = is_in ''custom'' (lower (line_text l))"

definition has_marker :: "line \<Rightarrow> bool" where
  \<comment> \<open>\<^verbatim>\<open>personalization_marker in lower_line\<close>\<close>
  "has_marker l = is_in personalization_marker (lower (line_text l))"

definition has_stop_keyword :: "line \<Rightarrow> bool" where
  \<comment> \<open>\<^verbatim>\<open>any(kw in lower_nl_text for kw in stop_keywords)\<close>\<close>
  "has_stop_keyword l = list_ex (\<lambda>kw. is_in kw (lower (line_text l))) stop_keywords"

definition highlight_words :: "word list \<Rightarrow> annot list" where
  \<comment> \<open>the loop over a line's words that skips the words containing the marker\<close>
  "highlight_words ws =
     map (\<lambda>w. (w_rect w, yellow_color))
       (filter (\<lambda>w. \<not> is_in ''personalization:'' (lower (wtext w))) ws)"

definition emit_line ::
  "options \<Rightarrow> nat \<Rightarrow> line \<Rightarrow> docx_paragraph list \<times> annot list \<Rightarrow> docx_paragraph list \<times> annot list" where
  \<comment> \<open>what both loops do with a line of a block: a paragraph, and the highlights\<close>
  "emit_line opts page_index l out =
     (fst out @ (if extract_text opts then [(page_index, line_text l)] else []),
      snd out @ (if highlight_personalization opts then highlight_words (word_list l) else []))"

text \<open>
  The inner loop \<^verbatim>\<open>while next_idx < len(lines_data)\<close>; it returns \<open>next_idx\<close> and the
  output.
\<close>

function block_loop ::
  "options \<Rightarrow> nat \<Rightarrow> line list \<Rightarrow> nat \<Rightarrow> docx_paragraph list \<times> annot list
     \<Rightarrow> nat \<times> docx_paragraph list \<times> annot list" where
  "block_loop opts page_index lines_data next_idx out =
     (if next_idx < length lines_data then
        (if has_stop_keyword (lines_data ! next_idx) then (next_idx, out)
         else if has_marker (lines_data ! next_idx) then (next_idx, out)
         else block_loop opts page_index lines_data (next_idx + 1)
                (emit_line opts page_index (lines_data ! next_idx) out))
      else (next_idx, out))"
  by pat_completeness auto
termination
  by (relation "measure (\<lambda>(opts, page_index, lines_data, next_idx, out). length lines_data - next_idx)")
     auto

declare block_loop.simps [simp del]

lemma block_loop_ge: "next_idx \<le> fst (block_loop opts page_index lines_data next_idx out)"
proof (induction opts page_index lines_data next_idx out rule: block_loop.induct)
  case (1 opts page_index lines_data next_idx out)
  show ?case
  proof (cases "next_idx < length lines_data \<and> \<not> has_stop_keyword (lines_data ! next_idx)
                \<and> \<not> has_marker (lines_data ! next_idx)")
    case True
    with "1.IH" have "next_idx + 1 \<le> fst (block_loop opts page_index lines_data (next_idx + 1)
        (emit_line opts page_index (lines_data ! next_idx) out))"
      by simp
    with True show ?thesis
      by (subst block_loop.simps) simp
  next
    case False
    then show ?thesis
      by (subst block_loop.simps) auto
  qed
qed

text \<open>
  The state of the outer loop \<^verbatim>\<open>while idx < len(lines_data)\<close>. The field \<open>opened\<close> is
  not a variable of the source: it lists, for every block the loop opened, the value of
  \<open>idx\<close> at its marker line and the value of \<open>next_idx\<close> that \<open>idx\<close> was set to. Nothing
  else reads it.
\<close>

record scan_state =
  idx :: nat
  current_item_has_custom :: bool
  emitted :: "docx_paragraph list \<times> annot list"
  opened :: "(nat \<times> nat) list"

definition scan_step :: "options \<Rightarrow> nat \<Rightarrow> line list \<Rightarrow> scan_state \<Rightarrow> scan_state" where
  \<comment> \<open>one pass through the body of the outer loop\<close>
  "scan_step opts page_index lines_data s =
     (let l = lines_data ! idx s;
          custom = (if is_descriptor l then has_custom l else current_item_has_custom s)
      in if has_marker l \<and> custom then
           (let (next_idx, out) =
                  block_loop opts page_index lines_data (idx s + 1)
                    (emit_line opts page_index l (emitted s))
            in s\<lparr>idx := next_idx, current_item_has_custom := custom, emitted := out,
                  opened := opened s @ [(idx s, next_idx)]\<rparr>)
         else s\<lparr>idx := idx s + 1, current_item_has_custom := custom\<rparr>)"

lemma scan_step_advances: "idx s < idx (scan_step opts page_index lines_data s)"
proof -
  define out where "out = emit_line opts page_index (lines_data ! idx s) (emitted s)"
  have "idx s + 1 \<le> fst (block_loop opts page_index lines_data (idx s + 1) out)"
    by (rule block_loop_ge)
  then show ?thesis
    unfolding scan_step_def Let_def out_def by (auto split: prod.splits)
qed

function scan_loop :: "options \<Rightarrow> nat \<Rightarrow> line list \<Rightarrow> scan_state \<Rightarrow> scan_state" where
  "scan_loop opts page_index lines_data s =
     (if idx s < length lines_data then
        scan_loop opts page_index lines_data (scan_step opts page_index lines_data s)
      else s)"
  by pat_completeness auto
termination
proof (relation "measure (\<lambda>(opts, page_index, lines_data, s). length lines_data - idx s)")
  show "wf (measure (\<lambda>(opts, page_index, lines_data, s). length lines_data - idx s))"
    by simp
next
  fix opts page_index and lines_data :: "line list" and s :: scan_state
  assume "idx s < length lines_data"
  with scan_step_advances [of s opts page_index lines_data]
  show "((opts, page_index, lines_data, scan_step opts page_index lines_data s),
         (opts, page_index, lines_data, s))
        \<in> measure (\<lambda>(opts, page_index, lines_data, s). length lines_data - idx s)"
    by simp
qed

declare scan_loop.simps [simp del]

definition personalization_scan ::
  "options \<Rightarrow> nat \<Rightarrow> line list \<Rightarrow> docx_paragraph list \<times> annot list \<Rightarrow> scan_state" where
  \<comment> \<open>\<open>idx = 0\<close>, \<open>current_item_has_custom = False\<close>, then the loop\<close>
  "personalization_scan opts page_index lines_data out =
     scan_loop opts page_index lines_data
       \<lparr>idx = 0, current_item_has_custom = False, emitted = out, opened = []\<rparr>"

section \<open>\<open>process_pdf_file\<close> (E): quantity highlights\<close>

text \<open>
  \<^verbatim>\<open>int(s)\<close> on a string of ASCII characters: the white space of C's \<open>isspace\<close>
  (codes 9 to 13, and 32) around the number is dropped, one sign may come first, and the
  digits may be grouped by single underscores. Anything else raises \<^verbatim>\<open>ValueError\<close>,
  and so does a number of more than 4300 digits (underscores not counted), the default
  limit of CPython 3.11 and later. The separators FS, GS, RS and US (codes 28 to 31),
  which \<open>strip\<close> removes, are not white space for \<open>int\<close>.
\<close>

definition is_int_space :: "char \<Rightarrow> bool" where
  "is_int_space c = (of_char c \<in> {9, 10, 11, 12, 13, 32 :: nat})"

definition int_strip :: "string \<Rightarrow> string" where
  \<comment> \<open>what \<open>int\<close> skips before and after the number\<close>
  "int_strip s = rev (dropWhile is_int_space (rev (dropWhile is_int_space s)))"

definition int_max_str_digits :: nat where
  "int_max_str_digits = 4300"

definition digit_val :: "char \<Rightarrow> nat option" where
  "digit_val c = map_of (zip ''0123456789'' [0, 1, 2, 3, 4, 5, 6, 7, 8, 9]) c"

fun digits_loop :: "nat \<Rightarrow> string \<Rightarrow> nat option" where
  \<comment> \<open>the first argument is the value of the digits read so far\<close>
  "digits_loop acc [] = Some acc"
| "digits_loop acc [c] =
     (case digit_val c of None \<Rightarrow> None | Some v \<Rightarrow> Some (10 * acc + v))"
| "digits_loop acc (c # d # ds) =
     (if c = CHR ''_'' then
        (case digit_val d of None \<Rightarrow> None | Some v \<Rightarrow> digits_loop (10 * acc + v) ds)
      else
        (case digit_val c of None \<Rightarrow> None | Some v \<Rightarrow> digits_loop (10 * acc + v) (d # ds)))"

definition parse_digits :: "string \<Rightarrow> nat option" where
  \<comment> \<open>the digits after the sign; \<open>None\<close> is \<^verbatim>\<open>ValueError\<close>\<close>
  "parse_digits s =
     (if int_max_str_digits < length (filter (\<lambda>c. c \<noteq> CHR ''_'') s) then None
      else
        (case s of
           [] \<Rightarrow> None
         | c # cs \<Rightarrow> (case digit_val c of None \<Rightarrow> None | Some v \<Rightarrow> digits_loop v cs)))"

definition py_int :: "string \<Rightarrow> py_error + int" where
  "py_int s =
     (case int_strip s of
        [] \<Rightarrow> Inl ValueError
      | c # cs \<Rightarrow>
          if c = CHR ''-'' then
            (case parse_digits cs of None \<Rightarrow> Inl ValueError | Some n \<Rightarrow> Inr (- int n))
          else if c = CHR ''+'' then
            (case parse_digits cs of None \<Rightarrow> Inl ValueError | Some n \<Rightarrow> Inr (int n))
          else
            (case parse_digits (c # cs) of None \<Rightarrow> Inl ValueError | Some n \<Rightarrow> Inr (int n)))"

definition starts_quantity :: "word \<Rightarrow> bool" where
  \<comment> \<open>\<^verbatim>\<open>wtext.lower().startswith("quantity:")\<close>\<close>
  "starts_quantity w = startswith (lower (wtext w)) ''quantity:''"

text \<open>
  The loop \<^verbatim>\<open>for w_i, (...) in enumerate(word_list)\<close> with its \<open>break\<close>; \<open>None\<close> is the
  \<open>quantity_index\<close> that was never set.
\<close>

fun find_quantity_index :: "word list \<Rightarrow> nat \<Rightarrow> nat option" where
  "find_quantity_index [] w_i = None"
| "find_quantity_index (w # ws) w_i =
     (if starts_quantity w then Some w_i else find_quantity_index ws (w_i + 1))"

definition has_quantity :: "line \<Rightarrow> bool" where
  \<comment> \<open>\<^verbatim>\<open>"quantity:" in lower_line\<close>\<close>
  "has_quantity l = is_in ''quantity:'' (lower (line_text l))"

definition quantity_line :: "line \<Rightarrow> annot list" where
  \<comment> \<open>the body of the loop over \<open>lines_data\<close>: the highlights added for one line\<close>
  "quantity_line l =
     (if has_quantity l then
        (case find_quantity_index (word_list l) 0 of
           None \<Rightarrow> []
         | Some quantity_index \<Rightarrow>
             if quantity_index + 1 < length (word_list l) then
               (let next_word = word_list l ! (quantity_index + 1) in
                case py_int (wtext next_word) of
                  Inl e \<Rightarrow> []
                | Inr val \<Rightarrow> if val \<ge> 2 then [(w_rect next_word, yellow_color)] else [])
             else [])
      else [])"

definition quantity_page :: "options \<Rightarrow> line list \<Rightarrow> annot list" where
  "quantity_page opts lines_data =
     (if highlight_quantity opts then concat (map quantity_line lines_data) else [])"

section \<open>\<open>process_pdf_file\<close> (F): ship to\<close>

definition has_ship_to :: "line \<Rightarrow> bool" where
  \<comment> \<open>\<^verbatim>\<open>"ship to" in line_text.lower()\<close>\<close>
  "has_ship_to l = is_in ''ship to'' (lower (line_text l))"

definition extracted_name :: "line \<Rightarrow> string" where
  \<comment> \<open>the name taken from the line after the "ship to" line\<close>
  "extracted_name next_line =
     (if length (word_list next_line) \<ge> 2
      then join '' '' (map wtext (take 2 (word_list next_line)))
      else line_text next_line)"

text \<open>The loop \<^verbatim>\<open>for i in range(len(lines_data))\<close> with its \<open>break\<close>.\<close>

function ship_to_loop ::
  "nat \<Rightarrow> line list \<Rightarrow> nat \<Rightarrow> (nat \<times> string) list \<Rightarrow> (nat \<times> string) list" where
  "ship_to_loop page_index lines_data i ship_to_info =
     (if i < length lines_data then
        (if has_ship_to (lines_data ! i) then
           (if i + 1 < length lines_data then
              ship_to_info @ [(page_index, extracted_name (lines_data ! (i + 1)))]
            else ship_to_info)
         else ship_to_loop page_index lines_data (i + 1) ship_to_info)
      else ship_to_info)"
  by pat_completeness auto
termination
  by (relation "measure (\<lambda>(page_index, lines_data, i, ship_to_info). length lines_data - i)") auto

declare ship_to_loop.simps [simp del]

definition ship_to_page :: "nat \<Rightarrow> line list \<Rightarrow> (nat \<times> string) list \<Rightarrow> (nat \<times> string) list" where
  "ship_to_page page_index lines_data ship_to_info =
     ship_to_loop page_index lines_data 0 ship_to_info"

section \<open>\<open>process_pdf_file\<close>: the run over the pages\<close>

function str_nat :: "nat \<Rightarrow> string" where
  \<comment> \<open>the decimal digits of a number, as an f-string writes it\<close>
  "str_nat n =
     (if n < 10 then [''0123456789'' ! n] else str_nat (n div 10) @ [''0123456789'' ! (n mod 10)])"
  by pat_completeness auto
termination
  by (relation "measure id") auto

declare str_nat.simps [simp del]

text \<open>
  A call of \<^verbatim>\<open>insert_text\<close>: the point, the text and the font size. The result of a run
  holds the paragraphs of the two Word documents, the highlight annotations and the
  inserted texts with the index of their page (0 is the leading blank page), and
  \<open>ship_to_info\<close>. The steps (A), (B) and (G) and the snippet highlight of (C) are left
  out: they add no paragraph, no text and no entry of \<open>ship_to_info\<close>.
\<close>

record text_insert =
  point :: "real \<times> real"
  content :: string
  fontsize :: nat

record run =
  gift_paragraphs :: "docx_paragraph list"
  personalization_paragraphs :: "docx_paragraph list"
  annotations :: "(nat \<times> annot) list"
  ship_to_info :: "(nat \<times> string) list"
  inserted :: "(nat \<times> text_insert) list"

definition page_number_text :: "nat \<Rightarrow> nat \<Rightarrow> text_insert" where
  \<comment> \<open>\<^verbatim>\<open>f"Page {page_index} of {total_pages - 1}"\<close> at \<open>(25, 25)\<close>\<close>
  "page_number_text page_index total_pages =
     \<lparr>point = (25, 25),
      content = ''Page '' @ str_nat page_index @ '' of '' @ str_nat (total_pages - 1),
      fontsize = 10\<rparr>"

definition watermark_insert :: "page \<Rightarrow> string \<Rightarrow> text_insert" where
  "watermark_insert pg watermark_text =
     \<lparr>point = (width (pg_rect pg) - 150, 35), content = watermark_text, fontsize = 10\<rparr>"

definition process_page ::
  "(rect \<Rightarrow> rect \<Rightarrow> bool) \<Rightarrow> options \<Rightarrow> string \<Rightarrow> nat \<Rightarrow> nat \<Rightarrow> page \<Rightarrow> run \<Rightarrow> run" where
  \<comment> \<open>the body of the loop \<^verbatim>\<open>for page_index in range(1, total_pages)\<close>\<close>
  "process_page intersects opts watermark_text total_pages page_index pg r =
     (let gift = gift_page intersects opts page_index pg (gift_paragraphs r);
          s = personalization_scan opts page_index (pg_lines pg)
                (personalization_paragraphs r, []);
          quantity = quantity_page opts (pg_lines pg);
          ship = ship_to_page page_index (pg_lines pg) (ship_to_info r);
          texts = page_number_text page_index total_pages #
                  (if apply_watermark opts \<and> strip watermark_text \<noteq> []
                   then [watermark_insert pg watermark_text] else [])
      in \<lparr>gift_paragraphs = gift,
          personalization_paragraphs = fst (emitted s),
          annotations = annotations r @ map (Pair page_index) (snd (emitted s) @ quantity),
          ship_to_info = ship,
          inserted = inserted r @ map (Pair page_index) texts\<rparr>)"

fun pages_loop ::
  "(rect \<Rightarrow> rect \<Rightarrow> bool) \<Rightarrow> options \<Rightarrow> string \<Rightarrow> nat \<Rightarrow> nat \<Rightarrow> page list \<Rightarrow> run \<Rightarrow> run" where
  "pages_loop intersects opts watermark_text total_pages page_index [] r = r"
| "pages_loop intersects opts watermark_text total_pages page_index (pg # pgs) r =
     pages_loop intersects opts watermark_text total_pages (page_index + 1) pgs
       (process_page intersects opts watermark_text total_pages page_index pg r)"

fun page0_loop :: "string \<Rightarrow> (nat \<times> string) list \<Rightarrow> real \<Rightarrow> text_insert list" where
  \<comment> \<open>the loop over \<open>ship_to_info\<close> on the leading blank page; the last argument is \<open>y\<close>\<close>
  "page0_loop watermark_text [] y = []"
| "page0_loop watermark_text ((pnum, name) # rest) y =
     \<lparr>point = (50, y), content = watermark_text @ str_nat pnum @ '': '' @ name, fontsize = 12\<rparr>
       # page0_loop watermark_text rest (y + 20)"

text \<open>
  \<open>process_pdf_file\<close> on the content pages of the input (the pages 1, 2, ... of the
  document after \<^verbatim>\<open>doc.insert_page(0)\<close>), up to the point where the document is saved.
\<close>

definition process_pdf_file ::
  "(rect \<Rightarrow> rect \<Rightarrow> bool) \<Rightarrow> page list \<Rightarrow> string \<Rightarrow> options \<Rightarrow> run" where
  "process_pdf_file intersects pages watermark_text opts =
     (let total_pages = length pages + 1;
          r = pages_loop intersects opts watermark_text total_pages 1 pages
                \<lparr>gift_paragraphs = [], personalization_paragraphs = [], annotations = [],
                 ship_to_info = [], inserted = []\<rparr>
      in if apply_watermark opts \<and> strip watermark_text \<noteq> [] then
           r\<lparr>inserted := inserted r @ map (Pair 0) (page0_loop watermark_text (ship_to_info r) 50)\<rparr>
         else r)"

section \<open>Predicates used to state the properties\<close>

definition first_quantity_token :: "word list \<Rightarrow> nat \<Rightarrow> bool" where
  \<comment> \<open>position \<open>i\<close> holds the first token that starts with "quantity:"\<close>
  "first_quantity_token ws i =
     (i < length ws \<and> starts_quantity (ws ! i) \<and> list_all (\<lambda>w. \<not> starts_quantity w) (take i ws))"

definition filled_cells :: "sheet \<Rightarrow> (nat \<times> rect) list" where
  \<comment> \<open>the cells of a sheet that hold a page: the index of the page and the cell's rectangle\<close>
  "filled_cells new_page = map (\<lambda>p. (in_page_index p, target_rect p)) new_page"

definition sized :: "in_page list \<Rightarrow> bool" where
  \<comment> \<open>every page rectangle is a proper rectangle: \<open>x0 < x1\<close> and \<open>y0 < y1\<close>\<close>
  "sized doc_in =
     list_all (\<lambda>p. x0 (page_rect p) < x1 (page_rect p) \<and> y0 (page_rect p) < y1 (page_rect p))
       doc_in"

definition proper :: "rect \<Rightarrow> bool" where
  \<comment> \<open>a rectangle of positive width and height\<close>
  "proper r = (x0 r < x1 r \<and> y0 r < y1 r)"

definition fitted :: "rect \<Rightarrow> rect \<Rightarrow> rect \<Rightarrow> bool" where
  \<comment> \<open>\<open>r\<close> is the page rectangle \<open>in_rect\<close> scaled into the cell \<open>target\<close>: it starts at the
      top of the cell and lies within it, it is centred between the left and the right
      edge, it is a proper rectangle with the proportions of \<open>in_rect\<close>, and it fills the
      width or the height of the cell\<close>
  "fitted in_rect target r =
     (y0 r = y0 target \<and> y1 r \<le> y1 target \<and>
      x0 target \<le> x0 r \<and> x1 r \<le> x1 target \<and>
      x0 r - x0 target = x1 target - x1 r \<and>
      x0 r < x1 r \<and> y0 r < y1 r \<and>
      width r * height in_rect = height r * width in_rect \<and>
      (width r = width target \<or> height r = height target))"

definition well_placed :: "in_page list \<Rightarrow> placement \<Rightarrow> bool" where
  \<comment> \<open>the rectangle given to \<^verbatim>\<open>show_pdf_page\<close> is the page fitted into the cell\<close>
  "well_placed doc_in p =
     fitted (page_rect (doc_in ! in_page_index p)) (target_rect p) (show_rect p)"

definition two_up_cells :: "in_page list \<Rightarrow> nat \<Rightarrow> (nat \<times> rect) list" where
  "two_up_cells doc_in i =
     (if nothing_to_show (doc_in ! i) then [] else [(i, left_rect)]) @
     (if i + 1 < length doc_in \<and> \<not> nothing_to_show (doc_in ! (i + 1))
      then [(i + 1, right_rect)] else [])"

definition thumb_cells :: "in_page list \<Rightarrow> nat \<Rightarrow> (nat \<times> rect) list" where
  "thumb_cells doc_in s =
     map (\<lambda>c. (1 + s + c, slot_rect c))
       (filter (\<lambda>c. \<not> nothing_to_show (doc_in ! (1 + s + c)))
          [0..<min 6 (length doc_in - 1 - s)])"

definition flag_before :: "line list \<Rightarrow> nat \<Rightarrow> bool" where
  \<comment> \<open>among the first \<open>i\<close> lines there is a descriptor line, and the last one contains "custom"\<close>
  "flag_before lines_data i =
     (let ds = filter is_descriptor (take i lines_data) in ds \<noteq> [] \<and> has_custom (last ds))"

definition custom_flag_at :: "line list \<Rightarrow> nat \<Rightarrow> bool" where
  \<comment> \<open>the same with line \<open>i\<close> itself counted: the most recent descriptor line, seen from line \<open>i\<close>\<close>
  "custom_flag_at lines_data i = flag_before lines_data (Suc i)"

fun chained :: "nat \<Rightarrow> nat \<Rightarrow> (nat \<times> nat) list \<Rightarrow> bool" where
  \<comment> \<open>blocks between \<open>lo\<close> and \<open>n\<close>, each non-empty, each starting where the one before ended or later\<close>
  "chained lo n [] = True"
| "chained lo n ((a, b) # bs) = (lo \<le> a \<and> a < b \<and> b \<le> n \<and> chained b n bs)"

definition block_end :: "options \<Rightarrow> nat \<Rightarrow> line list \<Rightarrow> scan_state \<Rightarrow> nat" where
  \<comment> \<open>the \<open>next_idx\<close> the inner loop returns for a block opened in state \<open>s\<close>\<close>
  "block_end opts p lines_data s =
     fst (block_loop opts p lines_data (idx s + 1)
            (emit_line opts p (lines_data ! idx s) (emitted s)))"

definition next_flag :: "line list \<Rightarrow> scan_state \<Rightarrow> bool" where
  \<comment> \<open>the flag after the descriptor check on the line at \<open>idx\<close>\<close>
  "next_flag lines_data s =
     (if is_descriptor (lines_data ! idx s) then has_custom (lines_data ! idx s)
      else current_item_has_custom s)"

definition block_lines :: "(nat \<times> nat) list \<Rightarrow> nat list" where
  \<comment> \<open>the indices of the lines of the blocks, block after block\<close>
  "block_lines bs = concat (map (\<lambda>(a, b). [a..<b]) bs)"

section \<open>Example inputs\<close>

definition ex_word :: "string \<Rightarrow> word" where
  "ex_word t = \<lparr>w_rect = Rect 0 0 10 10, wtext = t\<rparr>"

definition ex_line :: "string \<Rightarrow> string list \<Rightarrow> line" where
  \<comment> \<open>a line with the given text and the given word tokens\<close>
  "ex_line t ws = \<lparr>line_text = t, line_rect = Rect 0 0 100 10, word_list = map ex_word ws\<rparr>"

definition two_quantity_line :: line where
  "two_quantity_line = ex_line ''Quantity: x Quantity: 3'' [''Quantity:'', ''x'', ''Quantity:'', ''3'']"

definition rects_overlap :: "rect \<Rightarrow> rect \<Rightarrow> bool" where
  \<comment> \<open>an instance of the library's \<open>intersects\<close> for the examples: the interiors meet\<close>
  "rects_overlap a b = (x0 a < x1 b \<and> x0 b < x1 a \<and> y0 a < y1 b \<and> y0 b < y1 a)"

definition all_options :: options where
  "all_options =
     \<lparr>crop_pages = True, highlight_gmi = True, highlight_gift_snippet = True,
      extract_text = True, highlight_personalization = True, highlight_quantity = True,
      add_stamps = True, apply_watermark = True, generate_2up_thumbs = True\<rparr>"

definition gift_example_page :: page where
  \<comment> \<open>one block with the trigger on two lines, and a header block inside an excluded zone\<close>
  "gift_example_page =
     \<lparr>pg_rect = Rect 0 0 612 792,
      pg_gift_hits = [Rect 200 300 270 312, Rect 200 324 270 336, Rect 40 100 110 112],
      pg_blocks =
        [\<lparr>block_rect = Rect 40 100 160 112, btext = ''Gift message included'' @ [CHR 0x0A]\<rparr>,
         \<lparr>block_rect = Rect 200 300 500 350,
          btext = ''Gift message: see card'' @ [CHR 0x0A] @ ''Love, A'' @ [CHR 0x0A] @
                  ''Gift message included'' @ [CHR 0x0A] @ ''Thank you'' @ [CHR 0x0A]\<rparr>],
      pg_lines =
        [ex_line ''Ship To'' [''Ship'', ''To''],
         ex_line ''Ada M. Lovelace'' [''Ada'', ''M.'', ''Lovelace'']]\<rparr>"

definition letter_page :: in_page where
  "letter_page = \<lparr>page_rect = Rect 0 0 612 792, nothing_to_show = False\<rparr>"

definition empty_page :: in_page where
  "empty_page = \<lparr>page_rect = Rect 0 0 612 792, nothing_to_show = True\<rparr>"

definition gate_lines :: "line list" where
  "gate_lines =
     [ex_line ''Custom word or message: yes'' [''Custom'', ''word'', ''or'', ''message:'', ''yes''],
      ex_line ''Personalization: ABC'' [''Personalization:'', ''ABC''],
      ex_line ''second line'' [''second'', ''line''],
      ex_line ''Quantity: 1'' [''Quantity:'', ''1''],
      ex_line ''Word or message: plain'' [''Word'', ''or'', ''message:'', ''plain''],
      ex_line ''Personalization: DEF'' [''Personalization:'', ''DEF''],
      ex_line ''Custom morse code: x'' [''Custom'', ''morse'', ''code:'', ''x''],
      ex_line ''Personalization: GHI'' [''Personalization:'', ''GHI'']]"

section \<open>Properties\<close>

lemma capture_loop_capturing:
  "capture_loop True acc lines = acc @ takeWhile (\<lambda>line. \<not> re_search_gift_message line) lines"
  by (induction lines arbitrary: acc) simp_all

lemma capture_loop_idle:
  "capture_loop False acc lines =
     (case dropWhile (\<lambda>line. \<not> re_search_gift_message line) lines of
        [] \<Rightarrow> acc
      | t # rest \<Rightarrow> acc @ t # takeWhile (\<lambda>line. \<not> re_search_gift_message line) rest)"
  by (induction lines arbitrary: acc) (simp_all add: capture_loop_capturing)

text \<open>
  Claim C2. Among the snippet lines, the capture starts at the first line that contains
  "gift message" (in any case, that line included) and ends before the second such line;
  when only one line contains the trigger, the capture runs from that line to the last
  line. Here \<open>pre\<close> are the lines before the first trigger line \<open>t1\<close>, \<open>mid\<close> the lines
  after it that do not contain the trigger, \<open>t2\<close> a second trigger line and \<open>post\<close>
  whatever follows it.
\<close>

theorem capture_first_to_second:
  assumes "\<forall>l \<in> set pre. \<not> re_search_gift_message l"
      and "re_search_gift_message t1"
      and "\<forall>l \<in> set mid. \<not> re_search_gift_message l"
  shows "capture_lines (pre @ t1 # mid) = t1 # mid \<and>
         (re_search_gift_message t2 \<longrightarrow> capture_lines (pre @ t1 # mid @ t2 # post) = t1 # mid)"
proof -
  have pre: "dropWhile (\<lambda>l. \<not> re_search_gift_message l) (pre @ xs) =
             dropWhile (\<lambda>l. \<not> re_search_gift_message l) xs" for xs
    using assms(1) by simp
  have mid1: "takeWhile (\<lambda>l. \<not> re_search_gift_message l) mid = mid"
    using assms(3) by simp
  have mid2: "re_search_gift_message t2 \<Longrightarrow>
      takeWhile (\<lambda>l. \<not> re_search_gift_message l) (mid @ t2 # post) = mid"
    using assms(3) by simp
  show ?thesis
    using assms(2) mid1 mid2
    by (simp add: capture_lines_def capture_loop_idle pre)
qed

lemma trigger_examples:
  "\<not> re_search_gift_message ''Order 1''"
  "re_search_gift_message ''Gift Message: hi''"
  "\<not> re_search_gift_message ''love, A''"
  "re_search_gift_message ''GIFT MESSAGE included''"
  by (simp_all add: re_search_gift_message_def lower_def lower_char_def startswith_def)

theorem capture_first_to_second_witness:
  "capture_lines [''Order 1'', ''Gift Message: hi'', ''love, A''] =
     [''Gift Message: hi'', ''love, A''] \<and>
   capture_lines [''Order 1'', ''Gift Message: hi'', ''love, A'', ''GIFT MESSAGE included'',
       ''Order 2''] =
     [''Gift Message: hi'', ''love, A'']"
  using capture_first_to_second [of "[''Order 1'']" "''Gift Message: hi''" "[''love, A'']"
      "''GIFT MESSAGE included''" "[''Order 2'']"]
  by (simp add: trigger_examples)

subsection \<open>Gift snippet rectangle\<close>

lemma expanded_rect_edges:
  "expanded_rect inst = Rect (x0 inst - 36) (y0 inst - 216) (x1 inst + 36) (y1 inst + 72)"
  by (simp add: expanded_rect_def expand_left_def expand_right_def expand_up_def expand_down_def)

text \<open>
  Claim C1. The expansion rectangle around a trigger instance reaches 36pt to the left
  and 36pt to the right of it. Its top edge is \<open>y0 - 216\<close> and its bottom edge is
  \<open>y1 + 72\<close>: with \<open>y\<close> growing downward, the rectangle reaches 216pt above the
  instance and 72pt below it, where the claim says 72pt above and 216pt below. At the
  instance \<open>(100, 300, 180, 312)\<close> the claim asks for \<open>(64, 228, 216, 528)\<close>.
\<close>

theorem expanded_rect_example:
  "expanded_rect (Rect 100 300 180 312) = Rect 64 84 216 384"
  by (simp add: expanded_rect_def expand_left_def expand_right_def expand_up_def expand_down_def Rect_def)

subsection \<open>Ship to\<close>

lemma ship_to_loop_eq:
  "ship_to_loop page_index lines_data i info =
     info @ (case dropWhile (\<lambda>l. \<not> has_ship_to l) (drop i lines_data) of
               [] \<Rightarrow> []
             | [l] \<Rightarrow> []
             | l # next_line # rest \<Rightarrow> [(page_index, extracted_name next_line)])"
proof (induction page_index lines_data i info rule: ship_to_loop.induct)
  case (1 page_index lines_data i info)
  show ?case
  proof (cases "i < length lines_data")
    case False
    then show ?thesis by (subst ship_to_loop.simps) simp
  next
    case True
    then have d: "drop i lines_data = lines_data ! i # drop (Suc i) lines_data"
      by (simp add: Cons_nth_drop_Suc)
    show ?thesis
    proof (cases "has_ship_to (lines_data ! i)")
      case False
      with True "1.IH" show ?thesis
        by (subst ship_to_loop.simps) (simp add: d)
    next
      case hit: True
      show ?thesis
      proof (cases "i + 1 < length lines_data")
        case True
        then have "drop (Suc i) lines_data = lines_data ! (i + 1) # drop (Suc (Suc i)) lines_data"
          by (simp add: Cons_nth_drop_Suc)
        with True hit \<open>i < length lines_data\<close> show ?thesis
          by (subst ship_to_loop.simps) (simp add: d)
      next
        case False
        with hit \<open>i < length lines_data\<close> show ?thesis
          by (subst ship_to_loop.simps) (simp add: d)
      qed
    qed
  qed
qed

lemma extracted_name_eq:
  "extracted_name next_line =
     (if 2 \<le> length (word_list next_line)
      then wtext (word_list next_line ! 0) @ '' '' @ wtext (word_list next_line ! 1)
      else line_text next_line)"
proof (cases "2 \<le> length (word_list next_line)")
  case True
  then obtain a b r where "word_list next_line = a # b # r"
    by (cases "word_list next_line"; cases "tl (word_list next_line)") auto
  then show ?thesis
    by (simp add: extracted_name_def numeral_2_eq_2)
next
  case False
  then show ?thesis
    by (simp add: extracted_name_def)
qed

text \<open>
  Claim C6. The scan of a page adds at most one entry to \<open>ship_to_info\<close>. It looks at
  the first line that contains "ship to" (in any case) and at nothing after it: when a
  line follows, the entry is made of the first two word tokens of that next line,
  joined by a space, or of the whole text of the next line when it has fewer than two
  word tokens; later "ship to" lines add nothing.
\<close>

theorem ship_to_first_match:
  "ship_to_page page_index lines_data info =
     info @ (case dropWhile (\<lambda>l. \<not> has_ship_to l) lines_data of
               [] \<Rightarrow> []
             | [l] \<Rightarrow> []
             | l # next_line # rest \<Rightarrow>
                 [(page_index,
                   if 2 \<le> length (word_list next_line)
                   then wtext (word_list next_line ! 0) @ '' '' @ wtext (word_list next_line ! 1)
                   else line_text next_line)])"
  unfolding ship_to_page_def ship_to_loop_eq extracted_name_eq by simp

lemma ship_ex:
  "\<not> has_ship_to (ex_line ''Order 7'' [''Order'', ''7''])"
  "has_ship_to (ex_line ''Ship To'' [''Ship'', ''To''])"
  by (simp_all add: has_ship_to_def ex_line_def lower_def lower_char_def startswith_def)

theorem ship_to_first_match_witness:
  "ship_to_page 3
     [ex_line ''Order 7'' [''Order'', ''7''],
      ex_line ''Ship To'' [''Ship'', ''To''],
      ex_line ''Ada M. Lovelace'' [''Ada'', ''M.'', ''Lovelace''],
      ex_line ''Ship To'' [''Ship'', ''To''],
      ex_line ''Bob'' [''Bob'']] [] = [(3, ''Ada M.'')]"
  using ship_to_first_match [of 3 "[ex_line ''Order 7'' [''Order'', ''7''],
      ex_line ''Ship To'' [''Ship'', ''To''],
      ex_line ''Ada M. Lovelace'' [''Ada'', ''M.'', ''Lovelace''],
      ex_line ''Ship To'' [''Ship'', ''To''],
      ex_line ''Bob'' [''Bob'']]" "[]"]
  by (simp add: ship_ex) (simp add: ex_line_def ex_word_def)

subsection \<open>Quantity\<close>

lemma find_quantity_index_None:
  "find_quantity_index ws n = None \<longleftrightarrow> list_all (\<lambda>w. \<not> starts_quantity w) ws"
  by (induction ws arbitrary: n) auto

lemma first_quantity_token_Cons:
  "first_quantity_token (w # ws) j \<longleftrightarrow>
     (if starts_quantity w then j = 0 else 0 < j \<and> first_quantity_token ws (j - 1))"
  by (cases j) (simp_all add: first_quantity_token_def)

lemma find_quantity_index_Some:
  "find_quantity_index ws n = Some k \<longleftrightarrow> n \<le> k \<and> first_quantity_token ws (k - n)"
proof (induction ws arbitrary: n)
  case Nil
  show ?case by (simp add: first_quantity_token_def)
next
  case (Cons w ws)
  show ?case
  proof (cases "starts_quantity w")
    case True
    have "n = k \<longleftrightarrow> n \<le> k \<and> k - n = 0" by arith
    with True show ?thesis
      by (simp add: first_quantity_token_Cons)
  next
    case False
    have "k - n - 1 = k - (n + 1)" by arith
    moreover have "n + 1 \<le> k \<longleftrightarrow> n \<le> k \<and> 0 < k - n" by arith
    ultimately show ?thesis
      using False Cons.IH [of "n + 1"]
      by (simp add: first_quantity_token_Cons del: One_nat_def)
  qed
qed

lemma first_quantity_token_unique:
  "first_quantity_token ws i \<Longrightarrow> first_quantity_token ws j \<Longrightarrow> i = j"
  using find_quantity_index_Some [of ws 0 i] find_quantity_index_Some [of ws 0 j] by simp

lemmas str_eval = lower_def lower_char_def startswith_def strip_def is_space_def
   py_int_def parse_digits_def digit_val_def int_strip_def is_int_space_def
   int_max_str_digits_def

lemma py_int_examples:
  "py_int ''3'' = Inr 3" "py_int ''x'' = Inl ValueError" "py_int ''12'' = Inr 12"
  "py_int ''1_0'' = Inr 10"  "py_int ''-4'' = Inr (-4)" "py_int ''2.0'' = Inl ValueError"
  "py_int '' 7'' = Inr 7" "py_int [CHR 0x1F, CHR ''4''] = Inl ValueError"
  by (simp_all add: str_eval)

text \<open>
  Claim C5, as amended. On a line whose text contains "quantity:", the scan adds a
  highlight exactly when the first word token that starts with "quantity:" (in any
  case) has a next token and that token parses as an integer of value 2 or more; the
  highlight is then the rectangle of that next token, in yellow. When no token starts
  with "quantity:", when the first such token is the last token of the line, or when the
  next token does not parse (\<open>int\<close> raises \<open>ValueError\<close>, which the \<open>except\<close> clause
  drops), the line gets no highlight and the scan goes on: \<open>quantity_line\<close> is a total
  function with no error result. \<open>quantity_page\<close> runs it on every line when
  \<open>highlight_quantity\<close> is set.
\<close>

theorem quantity_highlight_first_token:
  assumes "has_quantity l"
  shows "(quantity_line l \<noteq> [] \<longleftrightarrow>
           (\<exists>i v. first_quantity_token (word_list l) i \<and> i + 1 < length (word_list l) \<and>
                  py_int (wtext (word_list l ! (i + 1))) = Inr v \<and> 2 \<le> v)) \<and>
         (\<forall>i. first_quantity_token (word_list l) i \<longrightarrow>
            quantity_line l =
              (if i + 1 < length (word_list l) then
                 (case py_int (wtext (word_list l ! (i + 1))) of
                    Inl e \<Rightarrow> []
                  | Inr v \<Rightarrow> if 2 \<le> v then [(w_rect (word_list l ! (i + 1)), yellow_color)] else [])
               else []))"
proof -
  have part2: "quantity_line l =
              (if i + 1 < length (word_list l) then
                 (case py_int (wtext (word_list l ! (i + 1))) of
                    Inl e \<Rightarrow> []
                  | Inr v \<Rightarrow> if 2 \<le> v then [(w_rect (word_list l ! (i + 1)), yellow_color)] else [])
               else [])" if "first_quantity_token (word_list l) i" for i
  proof -
    from that have "find_quantity_index (word_list l) 0 = Some i"
      by (simp add: find_quantity_index_Some)
    with assms show ?thesis
      by (simp add: quantity_line_def Let_def split: sum.splits)
  qed
  have part1: "quantity_line l \<noteq> [] \<longleftrightarrow>
           (\<exists>i v. first_quantity_token (word_list l) i \<and> i + 1 < length (word_list l) \<and>
                  py_int (wtext (word_list l ! (i + 1))) = Inr v \<and> 2 \<le> v)"
  proof (cases "find_quantity_index (word_list l) 0")
    case None
    then have "\<not> first_quantity_token (word_list l) i" for i
      using find_quantity_index_Some [of "word_list l" 0 i] by simp
    with None assms show ?thesis
      by (simp add: quantity_line_def)
  next
    case (Some k)
    then have k: "first_quantity_token (word_list l) k"
      by (simp add: find_quantity_index_Some)
    then have only: "first_quantity_token (word_list l) i \<longleftrightarrow> i = k" for i
      using first_quantity_token_unique by blast
    show ?thesis
      unfolding part2 [OF k] only
      by (auto split: sum.splits)
  qed
  from part1 part2 show ?thesis by blast
qed

theorem quantity_highlight_first_token_witness:
  "has_quantity (ex_line ''Quantity: 3'' [''Quantity:'', ''3'']) \<and>
   first_quantity_token (word_list (ex_line ''Quantity: 3'' [''Quantity:'', ''3''])) 0 \<and>
   quantity_line (ex_line ''Quantity: 3'' [''Quantity:'', ''3'']) =
     [(Rect 0 0 10 10, yellow_color)] \<and>
   has_quantity (ex_line ''Quantity: two'' [''Quantity:'', ''two'']) \<and>
   quantity_line (ex_line ''Quantity: two'' [''Quantity:'', ''two'']) = []"
  using quantity_highlight_first_token [of "ex_line ''Quantity: 3'' [''Quantity:'', ''3'']"]
    quantity_highlight_first_token [of "ex_line ''Quantity: two'' [''Quantity:'', ''two'']"]
  by (simp add: ex_line_def ex_word_def has_quantity_def starts_quantity_def
      first_quantity_token_def quantity_line_def str_eval)

text \<open>
  The claim as it is worded, with any token that starts with "quantity:", fails on a
  line with two such tokens: the first is followed by \<open>x\<close>, the second by \<open>3\<close>, and the
  line gets no highlight.
\<close>

theorem quantity_highlight_counterexample:
  "has_quantity two_quantity_line \<and>
   starts_quantity (word_list two_quantity_line ! 2) \<and>
   2 + 1 < length (word_list two_quantity_line) \<and>
   py_int (wtext (word_list two_quantity_line ! (2 + 1))) = Inr 3 \<and>
   quantity_line two_quantity_line = []"
  by (simp add: two_quantity_line_def ex_line_def ex_word_def has_quantity_def starts_quantity_def
      quantity_line_def str_eval)

subsection \<open>Gift message entries\<close>

lemma record_gift_inv:
  assumes "gift_doc st = d @ map (Pair p) new" and "seen st = set new" and "distinct new"
  shows "\<exists>new'. gift_doc (record_gift opts p t st) = d @ map (Pair p) new' \<and>
           seen (record_gift opts p t st) = set new' \<and> distinct new' \<and>
           set new' = set new \<union> (if t \<noteq> [] \<and> extract_text opts then {t} else {})"
proof (cases "t \<noteq> [] \<and> extract_text opts \<and> t \<notin> seen st")
  case True
  with assms show ?thesis
    by (intro exI [of _ "new @ [t]"]) (simp add: record_gift_def)
next
  case False
  with assms show ?thesis
    by (intro exI [of _ new]) (auto simp: record_gift_def)
qed

lemma hits_loop_inv:
  assumes "gift_doc st = d @ map (Pair p) new" and "seen st = set new" and "distinct new"
  shows "\<exists>new'. gift_doc (hits_loop intersects opts p pg hits st) = d @ map (Pair p) new' \<and>
           distinct new' \<and>
           set new' = set new \<union>
             (if extract_text opts then {t \<in> set (map (final_text intersects pg) hits). t \<noteq> []} else {})"
  using assms
proof (induction hits arbitrary: st new)
  case Nil
  then show ?case by auto
next
  case (Cons inst hits)
  from record_gift_inv [OF Cons.prems, of opts "final_text intersects pg inst"]
  obtain new1 where n1:
    "gift_doc (record_gift opts p (final_text intersects pg inst) st) = d @ map (Pair p) new1"
    "seen (record_gift opts p (final_text intersects pg inst) st) = set new1"
    "distinct new1"
    "set new1 = set new \<union>
       (if final_text intersects pg inst \<noteq> [] \<and> extract_text opts
        then {final_text intersects pg inst} else {})"
    by blast
  from Cons.IH [OF n1(1-3)] obtain new' where n2:
    "gift_doc (hits_loop intersects opts p pg hits
        (record_gift opts p (final_text intersects pg inst) st)) = d @ map (Pair p) new'"
    "distinct new'"
    "set new' = set new1 \<union>
       (if extract_text opts then {t \<in> set (map (final_text intersects pg) hits). t \<noteq> []} else {})"
    by blast
  have "set new' = set new \<union>
      (if extract_text opts
       then {t \<in> set (map (final_text intersects pg) (inst # hits)). t \<noteq> []} else {})"
    unfolding n2(3) n1(4) by auto
  with n2(1,2) show ?case
    by auto
qed

text \<open>
  Claim C7. With text extraction on, the gift paragraphs a page adds to the document
  are the page's captured texts, each exactly once: the new entries are pairwise
  distinct, and they are the non-empty texts among the trimmed snippet texts of the
  page's trigger instances. So two instances with the same captured text give one entry,
  and an empty captured text gives none.
\<close>

theorem gift_entries_distinct:
  assumes "extract_text opts"
  shows "\<exists>new. gift_page intersects opts page_index pg doc = doc @ map (Pair page_index) new \<and>
           distinct new \<and>
           set new = {t \<in> set (map (final_text intersects pg) (pg_gift_hits pg)). t \<noteq> []}"
proof -
  have "\<exists>new'. gift_doc (hits_loop intersects opts page_index pg (pg_gift_hits pg)
            \<lparr>seen = {}, gift_doc = doc\<rparr>) = doc @ map (Pair page_index) new' \<and>
           distinct new' \<and>
           set new' = set [] \<union>
             (if extract_text opts
              then {t \<in> set (map (final_text intersects pg) (pg_gift_hits pg)). t \<noteq> []} else {})"
    by (rule hits_loop_inv) simp_all
  with assms show ?thesis
    by (simp add: gift_page_def)
qed

lemmas geo_eval = Rect_def width_def height_def expanded_rect_def expand_left_def
  expand_right_def expand_up_def expand_down_def get_excluded_rects_def excluded_zones_inch_def
  inches_to_rect_def inches_to_points_def rects_overlap_def

lemma snippet_blocks_example:
  "snippet_blocks rects_overlap gift_example_page (Rect 200 300 270 312) =
     [(''Gift message: see card'' @ [CHR 0x0A] @ ''Love, A'' @ [CHR 0x0A] @
        ''Gift message included'' @ [CHR 0x0A] @ ''Thank you'', Rect 200 300 500 350)]"
  "snippet_blocks rects_overlap gift_example_page (Rect 200 324 270 336) =
     [(''Gift message: see card'' @ [CHR 0x0A] @ ''Love, A'' @ [CHR 0x0A] @
        ''Gift message included'' @ [CHR 0x0A] @ ''Thank you'', Rect 200 300 500 350)]"
  "snippet_blocks rects_overlap gift_example_page (Rect 40 100 110 112) = []"
  by (simp_all add: snippet_blocks_def gift_example_page_def geo_eval strip_def is_space_def)


lemma final_text_example:
  "final_text rects_overlap gift_example_page (Rect 200 300 270 312) =
     ''Gift message: see card'' @ [CHR 0x0A] @ ''Love, A''"
  "final_text rects_overlap gift_example_page (Rect 200 324 270 336) =
     ''Gift message: see card'' @ [CHR 0x0A] @ ''Love, A''"
  "final_text rects_overlap gift_example_page (Rect 40 100 110 112) = []"
  by (simp_all add: final_text_def snippet_blocks_example splitlines_def is_linebreak_def
      capture_lines_def re_search_gift_message_def lower_def lower_char_def startswith_def
      strip_def is_space_def)

theorem gift_entries_distinct_witness:
  "extract_text all_options \<and>
   map (final_text rects_overlap gift_example_page) (pg_gift_hits gift_example_page) =
     [''Gift message: see card'' @ [CHR 0x0A] @ ''Love, A'', ''Gift message: see card'' @ [CHR 0x0A] @ ''Love, A'', []] \<and>
   gift_page rects_overlap all_options 1 gift_example_page [] =
     [(1, ''Gift message: see card'' @ [CHR 0x0A] @ ''Love, A'')]"
proof -
  have opts: "extract_text all_options"
    by (simp add: all_options_def)
  have hits: "pg_gift_hits gift_example_page =
      [Rect 200 300 270 312, Rect 200 324 270 336, Rect 40 100 110 112]"
    by (simp add: gift_example_page_def)
  from gift_entries_distinct [OF opts, of rects_overlap 1 gift_example_page "[]"]
  obtain new where new: "gift_page rects_overlap all_options 1 gift_example_page [] =
        map (Pair 1) new" "distinct new"
      "set new = {''Gift message: see card'' @ [CHR 0x0A] @ ''Love, A''}"
    by (auto simp: hits final_text_example)
  from new(2,3) have "new = [''Gift message: see card'' @ [CHR 0x0A] @ ''Love, A'']"
    by (cases new; cases "tl new") auto
  with new(1) opts show ?thesis
    by (simp add: hits final_text_example)
qed


subsection \<open>Watermark and the leading page\<close>

lemma ship_to_page_append:
  "ship_to_page page_index lines_data info = info @ ship_to_page page_index lines_data []"
  by (simp add: ship_to_page_def ship_to_loop_eq)

lemma zip_upt_Cons:
  "zip [i..<i + length (pg # pgs)] (pg # pgs) = (i, pg) # zip [Suc i..<Suc i + length pgs] pgs"
proof -
  have "[i..<i + length (pg # pgs)] = i # [Suc i..<Suc i + length pgs]"
    by (subst upt_rec) simp
  then show ?thesis
    by (simp only: zip_Cons_Cons)
qed

lemma pages_loop_ship_to_info:
  "ship_to_info (pages_loop intersects opts watermark_text total_pages i pgs r) =
     ship_to_info r @
     concat (map (\<lambda>(k, pg). ship_to_page k (pg_lines pg) []) (zip [i..<i + length pgs] pgs))"
proof (induction pgs arbitrary: i r)
  case Nil
  show ?case by simp
next
  case (Cons pg pgs)
  have "ship_to_info (process_page intersects opts watermark_text total_pages i pg r) =
          ship_to_info r @ ship_to_page i (pg_lines pg) []"
    using ship_to_page_append [of i "pg_lines pg" "ship_to_info r"]
    by (simp add: process_page_def Let_def)
  then show ?case
    unfolding zip_upt_Cons by (simp add: Cons.IH)
qed

lemma pages_loop_inserted:
  "inserted (pages_loop intersects opts watermark_text total_pages i pgs r) =
     inserted r @
     concat (map (\<lambda>(k, pg). map (Pair k)
                (page_number_text k total_pages #
                 (if apply_watermark opts \<and> strip watermark_text \<noteq> []
                  then [watermark_insert pg watermark_text] else [])))
              (zip [i..<i + length pgs] pgs))"
proof (induction pgs arbitrary: i r)
  case Nil
  show ?case by simp
next
  case (Cons pg pgs)
  have "inserted (process_page intersects opts watermark_text total_pages i pg r) =
          inserted r @ map (Pair i)
                (page_number_text i total_pages #
                 (if apply_watermark opts \<and> strip watermark_text \<noteq> []
                  then [watermark_insert pg watermark_text] else []))"
    by (simp add: process_page_def Let_def)
  then show ?case
    unfolding zip_upt_Cons by (simp add: Cons.IH)
qed

lemma concat_map_zip_fst:
  "length ks = length pgs \<Longrightarrow> concat (map (\<lambda>(k, pg). [f k]) (zip ks pgs)) = map f ks"
  by (induction ks pgs rule: list_induct2) simp_all

text \<open>
  Claim C10. When \<open>apply_watermark\<close> is set and the watermark text is empty or white
  space only, the only texts a run inserts are the page numbers of the content pages:
  no watermark text on any content page and nothing on the leading blank page (page 0),
  so the entries of \<open>ship_to_info\<close> are written nowhere. The ship-to scan still runs on
  every page: \<open>ship_to_info\<close> holds what the scan finds on each page, in page order.
\<close>

theorem blank_watermark_discards_ship_to:
  assumes "apply_watermark opts" and "strip watermark_text = []"
  shows "inserted (process_pdf_file intersects pages watermark_text opts) =
           map (\<lambda>k. (k, page_number_text k (length pages + 1))) [1..<1 + length pages] \<and>
         ship_to_info (process_pdf_file intersects pages watermark_text opts) =
           concat (map (\<lambda>(k, pg). ship_to_page k (pg_lines pg) [])
                     (zip [1..<1 + length pages] pages))"
proof -
  have "concat (map (\<lambda>(k, pg). [(k, page_number_text k (length pages + 1))])
          (zip [1..<1 + length pages] pages)) =
        map (\<lambda>k. (k, page_number_text k (length pages + 1))) [1..<1 + length pages]"
    by (rule concat_map_zip_fst) (simp only: length_upt add_diff_cancel_left')
  with assms show ?thesis
    by (simp add: process_pdf_file_def Let_def pages_loop_inserted pages_loop_ship_to_info)
qed


theorem blank_watermark_discards_ship_to_witness:
  "apply_watermark all_options \<and> strip ''   '' = [] \<and>
   inserted (process_pdf_file rects_overlap [gift_example_page] ''   '' all_options) =
     [(1, \<lparr>point = (25, 25), content = ''Page 1 of 1'', fontsize = 10\<rparr>)] \<and>
   ship_to_info (process_pdf_file rects_overlap [gift_example_page] ''   '' all_options) =
     [(1, ''Ada M.'')]"
  using blank_watermark_discards_ship_to [of all_options "''   ''" rects_overlap "[gift_example_page]"]
  by (simp add: all_options_def strip_def is_space_def page_number_text_def str_nat.simps
      gift_example_page_def ship_to_page_def ship_to_loop_eq has_ship_to_def extracted_name_def
      ex_line_def ex_word_def lower_def lower_char_def startswith_def)

subsection \<open>Page composer\<close>

lemma fit_arith:
  fixes w h W H :: real
  assumes "0 < w" "0 < h" "0 < W" "0 < H"
  defines "scale \<equiv> min (W / w) (H / h)"
  shows "0 < scale" "w * scale \<le> W" "h * scale \<le> H"
    "w * scale = W \<or> h * scale = H"
proof -
  from assms show "0 < scale" by (simp add: scale_def)
  have "scale \<le> W / w" "scale \<le> H / h" by (simp_all add: scale_def)
  with assms(1,2) show "w * scale \<le> W" "h * scale \<le> H"
    by (simp_all add: pos_le_divide_eq mult.commute)
  have "scale = W / w \<or> scale = H / h" by (auto simp: scale_def min_def)
  with assms(1,2) show "w * scale = W \<or> h * scale = H"
    by auto
qed

lemma place_page_full_fitted:
  assumes "i < length doc_in" and "proper (page_rect (doc_in ! i))" and "proper target"
      and "\<not> nothing_to_show (doc_in ! i)"
  shows "\<exists>p. place_page_full doc_in i target = Inr p \<and> in_page_index p = i \<and>
           target_rect p = target \<and> well_placed doc_in p"
proof -
  define w h W H where "w = width (page_rect (doc_in ! i))" and "h = height (page_rect (doc_in ! i))"
    and "W = width target" and "H = height target"
  define scale where "scale = min (W / w) (H / h)"
  from assms(2,3) have pos: "0 < w" "0 < h" "0 < W" "0 < H"
    by (simp_all add: proper_def w_def h_def W_def H_def width_def height_def)
  note f = fit_arith [OF pos, folded scale_def]
  define left where "left = x0 target + (W - w * scale) / 2"
  define p where "p = \<lparr>target_rect = target, in_page_index = i,
      show_rect = Rect left (y0 target) (left + w * scale) (y0 target + h * scale)\<rparr>"
  from assms(1,4) pos have run: "place_page_full doc_in i target = Inr p"
    by (simp add: place_page_full_def Let_def p_def left_def scale_def w_def h_def W_def H_def)
  have x1t: "x1 target = x0 target + W" and y1t: "y1 target = y0 target + H"
    by (simp_all add: W_def H_def width_def height_def)
  from pos f(1) have ws: "0 < w * scale" "0 < h * scale" by simp_all
  define r where "r = Rect left (y0 target) (left + w * scale) (y0 target + h * scale)"
  have r: "x0 r = left" "x1 r = left + w * scale" "y0 r = y0 target"
      "y1 r = y0 target + h * scale" "width r = w * scale" "height r = h * scale"
    by (simp_all add: r_def Rect_def width_def height_def)
  have page: "width (page_rect (doc_in ! i)) = w" "height (page_rect (doc_in ! i)) = h"
      "width target = W" "height target = H"
    by (simp_all add: w_def h_def W_def H_def)
  have "fitted (page_rect (doc_in ! i)) target r"
    unfolding fitted_def r page x1t y1t
  proof (intro conjI)
    show "w * scale * h = h * scale * w" by simp
    show "w * scale = W \<or> h * scale = H" by (rule f(4))
  qed (use f(2,3) ws in \<open>simp_all add: left_def field_simps\<close>)
  then have "well_placed doc_in p"
    by (simp add: well_placed_def p_def r_def)
  with run show ?thesis
    by (intro exI [of _ p]) (simp add: p_def)
qed


lemma filled_cells_append:
  "filled_cells (xs @ ys) = filled_cells xs @ filled_cells ys"
  by (simp add: filled_cells_def)

lemma filled_cells_Nil: "filled_cells [] = []"
  by (simp add: filled_cells_def)

lemma try_place_sized:
  assumes "sized doc_in" and "i < length doc_in"
  shows "\<exists>ps. try_place doc_in i target new_page = Inr (new_page @ ps) \<and>
           filled_cells ps = (if nothing_to_show (doc_in ! i) then [] else [(i, target)])"
proof -
  from assms have nz: "width (page_rect (doc_in ! i)) \<noteq> 0" "height (page_rect (doc_in ! i)) \<noteq> 0"
    by (auto simp: sized_def list_all_length width_def height_def)
  show ?thesis
  proof (cases "nothing_to_show (doc_in ! i)")
    case True
    with assms(2) nz have "try_place doc_in i target new_page = Inr (new_page @ [])"
      by (simp add: try_place_def place_page_full_def Let_def)
    with True show ?thesis by (intro exI [of _ "[]"]) (simp add: filled_cells_Nil)
  next
    case False
    with assms(2) nz obtain p where p: "place_page_full doc_in i target = Inr p"
        "in_page_index p = i" "target_rect p = target"
      by (simp add: place_page_full_def Let_def)
    then have "try_place doc_in i target new_page = Inr (new_page @ [p])"
      by (simp add: try_place_def)
    with False p show ?thesis
      by (intro exI [of _ "[p]"]) (simp add: filled_cells_def)
  qed
qed

lemma example_pages:
  "\<not> nothing_to_show letter_page" "nothing_to_show empty_page"
  "x0 (page_rect letter_page) < x1 (page_rect letter_page) \<and>
   y0 (page_rect letter_page) < y1 (page_rect letter_page)"
  "x0 (page_rect empty_page) < x1 (page_rect empty_page) \<and>
   y0 (page_rect empty_page) < y1 (page_rect empty_page)"
  by (simp_all add: letter_page_def empty_page_def Rect_def)

lemma upt_0_6: "[0..<6] = [0, 1, 2, 3, 4, 5]"
  by (simp add: upt_rec)

lemma two_up_loop_sized:
  assumes "sized doc_in"
  shows "\<exists>sheets. two_up_loop doc_in i doc_out = Inr (doc_out @ sheets) \<and>
           length sheets = (length doc_in - i + 1) div 2 \<and>
           (\<forall>j<length sheets. filled_cells (sheets ! j) = two_up_cells doc_in (i + 2 * j))"
  using assms
proof (induction doc_in i doc_out rule: two_up_loop.induct)
  case (1 doc_in i doc_out)
  note sz = "1.prems"
  show ?case
  proof (cases "i < length doc_in")
    case False
    then show ?thesis
      by (subst two_up_loop.simps) simp
  next
    case True
    from try_place_sized [OF sz True, of left_rect "[]"]
    obtain ps1 where ps1: "try_place doc_in i left_rect [] = Inr ps1"
        "filled_cells ps1 = (if nothing_to_show (doc_in ! i) then [] else [(i, left_rect)])"
      by auto
    have "\<exists>np. (if i + 1 < length doc_in then try_place doc_in (i + 1) right_rect ps1
                 else Inr ps1) = Inr np \<and> filled_cells np = two_up_cells doc_in i"
    proof (cases "i + 1 < length doc_in")
      case True
      from try_place_sized [OF sz True, of right_rect ps1] ps1(2) True show ?thesis
        by (auto simp: two_up_cells_def filled_cells_append)
    next
      case False
      with ps1(2) show ?thesis by (simp add: two_up_cells_def)
    qed
    then obtain np where np:
        "(if i + 1 < length doc_in then try_place doc_in (i + 1) right_rect ps1
          else Inr ps1) = Inr np" "filled_cells np = two_up_cells doc_in i"
      by blast
    from "1.IH" [OF True ps1(1) np(1) sz] obtain rest where rest:
        "two_up_loop doc_in (i + 2) (doc_out @ [np]) = Inr ((doc_out @ [np]) @ rest)"
        "length rest = (length doc_in - (i + 2) + 1) div 2"
        "\<forall>j<length rest. filled_cells (rest ! j) = two_up_cells doc_in (i + 2 + 2 * j)"
      by blast
    have run: "two_up_loop doc_in i doc_out = Inr (doc_out @ np # rest)"
      using True ps1(1) np(1) rest(1) by (subst two_up_loop.simps) simp
    have len: "length (np # rest) = (length doc_in - i + 1) div 2"
      using True rest(2) by simp arith
    have "filled_cells ((np # rest) ! j) = two_up_cells doc_in (i + 2 * j)"
      if "j < length (np # rest)" for j
    proof (cases j)
      case 0
      with np(2) show ?thesis by simp
    next
      case (Suc j')
      with that rest(3) have "filled_cells (rest ! j') = two_up_cells doc_in (i + 2 + 2 * j')"
        by simp
      with Suc show ?thesis by simp
    qed
    with run len show ?thesis by blast
  qed
qed


lemma rects_proper:
  "proper left_rect" "proper right_rect" "proper (slot_rect c)"
  by (simp_all add: proper_def left_rect_def right_rect_def page_width_2up_def
      page_height_2up_def slot_rect_def slot_w_def slot_h_def columns_def rows_def
      page_width_thumb_def page_height_thumb_def Rect_def Let_def)

lemma sized_proper: "sized doc_in \<Longrightarrow> i < length doc_in \<Longrightarrow> proper (page_rect (doc_in ! i))"
  by (simp add: sized_def list_all_length proper_def)

lemma try_place_well:
  assumes "sized doc_in" and "i < length doc_in" and "proper target"
      and "list_all (well_placed doc_in) new_page"
      and "try_place doc_in i target new_page = Inr np"
  shows "list_all (well_placed doc_in) np"
proof (cases "nothing_to_show (doc_in ! i)")
  case True
  from sized_proper [OF assms(1,2)] have "width (page_rect (doc_in ! i)) \<noteq> 0"
      "height (page_rect (doc_in ! i)) \<noteq> 0"
    by (simp_all add: proper_def width_def height_def)
  with True assms(2) have "try_place doc_in i target new_page = Inr new_page"
    by (simp add: try_place_def place_page_full_def Let_def)
  with assms(4,5) show ?thesis by simp
next
  case False
  from place_page_full_fitted [OF assms(2) sized_proper [OF assms(1,2)] assms(3) False]
  obtain p where p: "place_page_full doc_in i target = Inr p" "well_placed doc_in p"
    by blast
  then have "try_place doc_in i target new_page = Inr (new_page @ [p])"
    by (simp add: try_place_def)
  with assms(4,5) p(2) show ?thesis by auto
qed

lemma two_up_loop_well:
  assumes "sized doc_in" and "list_all (list_all (well_placed doc_in)) doc_out"
      and "two_up_loop doc_in i doc_out = Inr sheets"
  shows "list_all (list_all (well_placed doc_in)) sheets"
  using assms
proof (induction doc_in i doc_out rule: two_up_loop.induct)
  case (1 doc_in i doc_out)
  note sz = "1.prems"(1)
  show ?case
  proof (cases "i < length doc_in")
    case False
    with "1.prems"(3) have "sheets = doc_out"
      by (subst (asm) two_up_loop.simps) simp
    with "1.prems"(2) show ?thesis by simp
  next
    case True
    from try_place_sized [OF sz True, of left_rect "[]"]
    obtain ps1 where ps1: "try_place doc_in i left_rect [] = Inr ps1"
      by auto
    have "\<exists>np. (if i + 1 < length doc_in then try_place doc_in (i + 1) right_rect ps1
                 else Inr ps1) = Inr np"
    proof (cases "i + 1 < length doc_in")
      case True
      from try_place_sized [OF sz True, of right_rect ps1] True show ?thesis by auto
    next
      case False
      then show ?thesis by simp
    qed
    then obtain np where np:
        "(if i + 1 < length doc_in then try_place doc_in (i + 1) right_rect ps1
          else Inr ps1) = Inr np"
      by blast
    have w1: "list_all (well_placed doc_in) ps1"
      by (rule try_place_well [OF sz True rects_proper(1) _ ps1(1)]) simp
    have w2: "list_all (well_placed doc_in) np"
    proof (cases "i + 1 < length doc_in")
      case True
      with np have "try_place doc_in (i + 1) right_rect ps1 = Inr np" by simp
      from try_place_well [OF sz True rects_proper(2) w1 this] show ?thesis .
    next
      case False
      with np w1 show ?thesis by simp
    qed
    from True ps1 np "1.prems"(3)
    have run: "two_up_loop doc_in (i + 2) (doc_out @ [np]) = Inr sheets"
      by (subst (asm) two_up_loop.simps) simp
    from "1.prems"(2) w2 have "list_all (list_all (well_placed doc_in)) (doc_out @ [np])"
      by simp
    from "1.IH" [OF True ps1 np sz this run] show ?thesis .
  qed
qed

text \<open>
  Claim C8. For a document of \<open>n \<ge> 1\<close> pages, 2-up composition saves
  \<open>(n + 1) div 2\<close> sheets, the ceiling of \<open>n / 2\<close>. Sheet \<open>k\<close> holds page \<open>2k\<close> in the
  left cell and page \<open>2k + 1\<close>, when the document has one, in the right cell, in this
  order; a page for which the renderer has nothing to show leaves its cell empty, and the
  sheet is emitted all the same. The left cell is the left half \<open>(0, 0, 421, 595)\<close> of
  the sheet and the right cell its right half \<open>(421, 0, 842, 595)\<close>, and every page is
  shown inside its cell (\<open>well_placed\<close>): the rectangle passed to the renderer starts at
  the top of the cell, lies within it, is centred between its left and right edge, has
  the proportions of the page and fills the width or the height of the cell. Five pages
  give three sheets, the third with its left cell only. The hypothesis \<open>sized\<close> says that
  every page rectangle is a proper rectangle, as the page rectangles of a PDF document
  are: for a page of width or height 0 the scale computation divides by zero before the
  renderer is called, and that exception is not caught.
\<close>

theorem two_up_sheets:
  assumes "doc_in \<noteq> []" and "sized doc_in"
  shows "\<exists>sheets. create_two_up_pdf doc_in = Inr (Some sheets) \<and>
           length sheets = (length doc_in + 1) div 2 \<and>
           (\<forall>k<length sheets. filled_cells (sheets ! k) =
              (if nothing_to_show (doc_in ! (2 * k)) then [] else [(2 * k, left_rect)]) @
              (if 2 * k + 1 < length doc_in \<and> \<not> nothing_to_show (doc_in ! (2 * k + 1))
               then [(2 * k + 1, right_rect)] else [])) \<and>
           (\<forall>k<length sheets. \<forall>p \<in> set (sheets ! k). well_placed doc_in p) \<and>
           left_rect = Rect 0 0 421 595 \<and> right_rect = Rect 421 0 842 595"
proof -
  from two_up_loop_sized [OF assms(2), of 0 "[]"] obtain sheets where s:
      "two_up_loop doc_in 0 [] = Inr sheets" "length sheets = (length doc_in + 1) div 2"
      "\<forall>j<length sheets. filled_cells (sheets ! j) = two_up_cells doc_in (2 * j)"
    by auto
  from s(1) assms(1) have run: "create_two_up_pdf doc_in = Inr (Some sheets)"
    by (simp add: create_two_up_pdf_def)
  have "list_all (list_all (well_placed doc_in)) sheets"
    by (rule two_up_loop_well [OF assms(2) _ s(1)]) simp
  then have well: "\<forall>k<length sheets. \<forall>p \<in> set (sheets ! k). well_placed doc_in p"
    by (auto simp: list_all_iff)
  have cells: "\<forall>k<length sheets. filled_cells (sheets ! k) =
              (if nothing_to_show (doc_in ! (2 * k)) then [] else [(2 * k, left_rect)]) @
              (if 2 * k + 1 < length doc_in \<and> \<not> nothing_to_show (doc_in ! (2 * k + 1))
               then [(2 * k + 1, right_rect)] else [])"
    using s(3) by (simp add: two_up_cells_def)
  have coords: "left_rect = Rect 0 0 421 595 \<and> right_rect = Rect 421 0 842 595"
    by (simp add: left_rect_def right_rect_def page_width_2up_def page_height_2up_def)
  show ?thesis
    by (rule exI [of _ sheets]) (rule conjI [OF run conjI [OF s(2) conjI [OF cells conjI [OF well coords]]]])
qed



lemmas place_eval = try_place_def place_page_full_def Let_def letter_page_def empty_page_def
  left_rect_def right_rect_def page_width_2up_def page_height_2up_def Rect_def width_def
  height_def

lemma two_up_example_rects:
  "map_sum id (map_option (map (map show_rect)))
     (create_two_up_pdf [letter_page, empty_page, letter_page, letter_page, letter_page]) =
   Inr (Some [[Rect 0 0 421 (9262 / 17)],
              [Rect 0 0 421 (9262 / 17), Rect 421 0 842 (9262 / 17)],
              [Rect 0 0 421 (9262 / 17)]])"
  by (simp add: create_two_up_pdf_def two_up_loop.simps place_eval)

theorem two_up_sheets_witness:
  "\<exists>sheets. create_two_up_pdf [letter_page, empty_page, letter_page, letter_page, letter_page] =
       Inr (Some sheets) \<and>
     map filled_cells sheets =
       [[(0, Rect 0 0 421 595)], [(2, Rect 0 0 421 595), (3, Rect 421 0 842 595)],
        [(4, Rect 0 0 421 595)]] \<and>
     map (map show_rect) sheets =
       [[Rect 0 0 421 (9262 / 17)],
        [Rect 0 0 421 (9262 / 17), Rect 421 0 842 (9262 / 17)],
        [Rect 0 0 421 (9262 / 17)]]"
proof -
  let ?doc = "[letter_page, empty_page, letter_page, letter_page, letter_page]"
  have "?doc \<noteq> []" and "sized ?doc"
    by (simp_all add: sized_def example_pages)
  from two_up_sheets [OF this] obtain sheets where s:
      "create_two_up_pdf ?doc = Inr (Some sheets)" "length sheets = 3"
      "\<forall>k<length sheets. filled_cells (sheets ! k) =
              (if nothing_to_show (?doc ! (2 * k)) then [] else [(2 * k, left_rect)]) @
              (if 2 * k + 1 < length ?doc \<and> \<not> nothing_to_show (?doc ! (2 * k + 1))
               then [(2 * k + 1, right_rect)] else [])"
      "left_rect = Rect 0 0 421 595" "right_rect = Rect 421 0 842 595"
    by auto
  from s(2) obtain a b c where abc: "sheets = [a, b, c]"
    by (auto simp: length_Suc_conv eval_nat_numeral)
  note shown = example_pages(1,2)
  from s(2) have lt: "0 < length sheets" "1 < length sheets" "2 < length sheets"
    by simp_all
  from s(3) [rule_format, OF lt(1)] have c0: "filled_cells (sheets ! 0) = [(0, left_rect)]"
    by (simp add: shown)
  from s(3) [rule_format, OF lt(2)]
  have c1: "filled_cells (sheets ! 1) = [(2, left_rect), (3, right_rect)]"
    by (simp add: shown)
  from s(3) [rule_format, OF lt(3)] have c2: "filled_cells (sheets ! 2) = [(4, left_rect)]"
    by (simp add: shown)
  from c0 c1 c2
  have m: "map filled_cells sheets =
      [[(0, Rect 0 0 421 595)], [(2, Rect 0 0 421 595), (3, Rect 421 0 842 595)],
        [(4, Rect 0 0 421 595)]]"
    unfolding abc s(4,5) by simp
  from two_up_example_rects have r: "map (map show_rect) sheets =
       [[Rect 0 0 421 (9262 / 17)],
        [Rect 0 0 421 (9262 / 17), Rect 421 0 842 (9262 / 17)],
        [Rect 0 0 421 (9262 / 17)]]"
    unfolding s(1) by simp
  show ?thesis
    by (rule exI [of _ sheets]) (simp only: s(1) m r)
qed

lemma chunk_loop_sized:
  assumes "sized doc_in" and "\<forall>(i, src) \<in> set ps. src < length doc_in"
  shows "\<exists>qs. chunk_loop doc_in ps new_page = Inr (new_page @ qs) \<and>
           filled_cells qs =
             map (\<lambda>(i, src). (src, slot_rect i))
               (filter (\<lambda>(i, src). \<not> nothing_to_show (doc_in ! src)) ps)"
  using assms(2)
proof (induction ps arbitrary: new_page)
  case Nil
  show ?case by (simp add: filled_cells_Nil)
next
  case (Cons p ps)
  obtain i src where p: "p = (i, src)" by (cases p)
  with Cons.prems have src: "src < length doc_in" and rest: "\<forall>(i, src) \<in> set ps. src < length doc_in"
    by simp_all
  from try_place_sized [OF assms(1) src, of "slot_rect i" new_page]
  obtain q1 where q1: "try_place doc_in src (slot_rect i) new_page = Inr (new_page @ q1)"
      "filled_cells q1 = (if nothing_to_show (doc_in ! src) then [] else [(src, slot_rect i)])"
    by blast
  from Cons.IH [OF rest, of "new_page @ q1"]
  obtain q2 where q2: "chunk_loop doc_in ps (new_page @ q1) = Inr ((new_page @ q1) @ q2)"
      "filled_cells q2 =
         map (\<lambda>(i, src). (src, slot_rect i))
           (filter (\<lambda>(i, src). \<not> nothing_to_show (doc_in ! src)) ps)"
    by blast
  have "chunk_loop doc_in (p # ps) new_page = Inr (new_page @ (q1 @ q2))"
    using q1(1) q2(1) by (simp add: p)
  moreover have "filled_cells (q1 @ q2) =
      map (\<lambda>(i, src). (src, slot_rect i))
        (filter (\<lambda>(i, src). \<not> nothing_to_show (doc_in ! src)) (p # ps))"
    using q1(2) q2(2) by (simp add: p filled_cells_append)
  ultimately show ?case by blast
qed

lemma take_drop_upt:
  "take m (drop s [a..<n]) = map (\<lambda>c. a + s + c) [0..<min m (n - a - s)]"
proof (rule nth_equalityI)
  show "length (take m (drop s [a..<n])) = length (map (\<lambda>c. a + s + c) [0..<min m (n - a - s)])"
    by (simp add: min.commute)
next
  fix i
  assume "i < length (take m (drop s [a..<n]))"
  then have "i < m" "a + (s + i) < n"
    by auto
  moreover from this have "i < min m (n - a - s)"
    by simp
  ultimately show "take m (drop s [a..<n]) ! i = map (\<lambda>c. a + s + c) [0..<min m (n - a - s)] ! i"
    by (simp add: add.assoc)
qed

lemma enumerate_map_upt:
  "enumerate_list (map f [0..<k]) = map (\<lambda>c. (c, f c)) [0..<k]"
  unfolding enumerate_list_def
  by (rule nth_equalityI) simp_all

lemma enumerate_chunk:
  "enumerate_list (take m (drop s [1..<n])) = map (\<lambda>c. (c, 1 + s + c)) [0..<min m (n - 1 - s)]"
  by (simp only: take_drop_upt enumerate_map_upt)


lemma ceil6_step:
  assumes "0 < (m::nat)"
  shows "Suc ((m - 6 + 5) div 6) = (m + 5) div 6"
proof (cases "6 \<le> m")
  case True
  then have "m + 5 = (m - 6 + 5) + 6" by simp
  then have "(m + 5) div 6 = ((m - 6 + 5) + 6) div 6" by (rule arg_cong)
  also have "\<dots> = Suc ((m - 6 + 5) div 6)" by (simp only: div_add_self2 Suc_eq_plus1)
  finally show ?thesis by (rule sym)
next
  case False
  then have a: "m - 6 + 5 = 5" by simp
  from False assms have "(m + 5) div 6 = 1"
    by (intro div_nat_eqI) simp_all
  with a show ?thesis by simp
qed

lemma thumb_cells_eq:
  "map (\<lambda>(i, src). (src, slot_rect i))
     (filter (\<lambda>(i, src). \<not> nothing_to_show (doc_in ! src))
        (map (\<lambda>c. (c, 1 + s + c)) [0..<min 6 (length doc_in - 1 - s)])) =
   thumb_cells doc_in s"
  by (simp add: thumb_cells_def filter_map comp_def)

lemma thumb_loop_sized:
  assumes "sized doc_in" and "page_indexes = [1..<length doc_in]"
  shows "\<exists>sheets. thumb_loop doc_in page_indexes s doc_out = Inr (doc_out @ sheets) \<and>
           length sheets = (length doc_in - 1 - s + 5) div 6 \<and>
           (\<forall>j<length sheets. filled_cells (sheets ! j) = thumb_cells doc_in (s + 6 * j))"
  using assms
proof (induction doc_in page_indexes s doc_out rule: thumb_loop.induct)
  case (1 doc_in page_indexes s doc_out)
  note sz = "1.prems"(1) and pis = "1.prems"(2)
  have tpp: "thumbs_per_page = 6"
    by (simp add: thumbs_per_page_def columns_def rows_def)
  show ?case
  proof (cases "s < length page_indexes")
    case False
    then show ?thesis
      by (subst thumb_loop.simps) (simp add: pis)
  next
    case True
    have en: "enumerate_list (take thumbs_per_page (drop s page_indexes)) =
        map (\<lambda>c. (c, 1 + s + c)) [0..<min 6 (length doc_in - 1 - s)]"
      by (simp only: pis tpp enumerate_chunk)
    have "\<forall>(i, src) \<in> set (map (\<lambda>c. (c, 1 + s + c)) [0..<min 6 (length doc_in - 1 - s)]).
            src < length doc_in"
      by auto
    from chunk_loop_sized [OF sz this, of "[]"] obtain np where np:
        "chunk_loop doc_in (enumerate_list (take thumbs_per_page (drop s page_indexes))) [] = Inr np"
        "filled_cells np = thumb_cells doc_in s"
      by (auto simp only: en thumb_cells_eq append_Nil)
    from "1.IH" [OF True refl np(1) sz pis] obtain rest where rest:
        "thumb_loop doc_in page_indexes (s + thumbs_per_page) (doc_out @ [np]) =
           Inr ((doc_out @ [np]) @ rest)"
        "length rest = (length doc_in - 1 - (s + thumbs_per_page) + 5) div 6"
        "\<forall>j<length rest. filled_cells (rest ! j) = thumb_cells doc_in (s + thumbs_per_page + 6 * j)"
      by blast
    have run: "thumb_loop doc_in page_indexes s doc_out = Inr (doc_out @ np # rest)"
      using True np(1) rest(1) by (subst thumb_loop.simps) (simp add: Let_def)
    from True have lt: "s < length doc_in - 1"
      by (simp add: pis)
    then have "0 < length doc_in - 1 - s"
      by simp
    from ceil6_step [OF this]
    have "Suc ((length doc_in - 1 - (s + 6) + 5) div 6) = (length doc_in - 1 - s + 5) div 6"
      by (simp only: diff_diff_left)
    with rest(2) have len: "length (np # rest) = (length doc_in - 1 - s + 5) div 6"
      by (simp only: tpp list.size(4))
    have "filled_cells ((np # rest) ! j) = thumb_cells doc_in (s + 6 * j)"
      if "j < length (np # rest)" for j
    proof (cases j)
      case 0
      with np(2) show ?thesis by simp
    next
      case (Suc j')
      with that rest(3) have "filled_cells (rest ! j') = thumb_cells doc_in (s + 6 + 6 * j')"
        by (simp add: tpp)
      with Suc show ?thesis by (simp add: add.assoc)
    qed
    with run len show ?thesis
      by (intro exI [of _ "np # rest"]) simp
  qed
qed


lemma chunk_loop_well:
  assumes "sized doc_in" and "\<forall>(i, src) \<in> set ps. src < length doc_in"
      and "list_all (well_placed doc_in) new_page"
      and "chunk_loop doc_in ps new_page = Inr np"
  shows "list_all (well_placed doc_in) np"
  using assms(2-)
proof (induction ps arbitrary: new_page)
  case Nil
  then show ?case by simp
next
  case (Cons p ps)
  obtain i src where p: "p = (i, src)" by (cases p)
  with Cons.prems(1) have src: "src < length doc_in"
      and rest: "\<forall>(i, src) \<in> set ps. src < length doc_in"
    by simp_all
  from try_place_sized [OF assms(1) src, of "slot_rect i" new_page]
  obtain q where q: "try_place doc_in src (slot_rect i) new_page = Inr q"
    by blast
  from try_place_well [OF assms(1) src rects_proper(3) Cons.prems(2) q]
  have wq: "list_all (well_placed doc_in) q" .
  from Cons.prems(3) q have "chunk_loop doc_in ps q = Inr np"
    by (simp add: p)
  from Cons.IH [OF rest wq this] show ?case .
qed

lemma thumb_loop_well:
  assumes "sized doc_in" and "page_indexes = [1..<length doc_in]"
      and "list_all (list_all (well_placed doc_in)) doc_out"
      and "thumb_loop doc_in page_indexes s doc_out = Inr sheets"
  shows "list_all (list_all (well_placed doc_in)) sheets"
  using assms
proof (induction doc_in page_indexes s doc_out rule: thumb_loop.induct)
  case (1 doc_in page_indexes s doc_out)
  note sz = "1.prems"(1) and pis = "1.prems"(2)
  show ?case
  proof (cases "s < length page_indexes")
    case False
    with "1.prems"(4) have "sheets = doc_out"
      by (subst (asm) thumb_loop.simps) simp
    with "1.prems"(3) show ?thesis by simp
  next
    case True
    define chunk where "chunk = take thumbs_per_page (drop s page_indexes)"
    have in_doc: "\<forall>(i, src) \<in> set (enumerate_list chunk). src < length doc_in"
      unfolding enumerate_list_def chunk_def pis
      by (auto dest!: set_zip_rightD in_set_takeD in_set_dropD)
    from chunk_loop_sized [OF sz in_doc, of "[]"] obtain np where
        np: "chunk_loop doc_in (enumerate_list chunk) [] = Inr np"
      by auto
    have wnp: "list_all (well_placed doc_in) np"
      by (rule chunk_loop_well [OF sz in_doc _ np]) simp
    from True np "1.prems"(4)
    have run: "thumb_loop doc_in page_indexes (s + thumbs_per_page) (doc_out @ [np]) = Inr sheets"
      by (subst (asm) thumb_loop.simps) (simp add: Let_def chunk_def)
    from "1.prems"(3) wnp have "list_all (list_all (well_placed doc_in)) (doc_out @ [np])"
      by simp
    from "1.IH" [OF True refl np [unfolded chunk_def] sz pis this run] show ?thesis .
  qed
qed

lemma slot_rect_coords:
  "slot_rect c =
     Rect (real (c mod 3) * (595 / 3)) (real (c div 3) * 421)
          (real (c mod 3) * (595 / 3) + 595 / 3) (real (c div 3) * 421 + 421)"
  by (simp add: slot_rect_def slot_w_def slot_h_def columns_def rows_def
      page_width_thumb_def page_height_thumb_def Let_def)

text \<open>
  Claim C9. Thumbnail composition saves nothing for a document of fewer than 2 pages.
  Otherwise it never places page 0; sheet \<open>j\<close> holds the pages \<open>1 + 6j + c\<close> for the
  positions \<open>c = 0, ..., 5\<close> that the document still has, position \<open>c\<close> in the cell of row
  \<open>c div 3\<close> and column \<open>c mod 3\<close>: the cell \<open>slot_rect c\<close> is \<open>595 / 3\<close> wide and \<open>421\<close>
  high, with its left edge at \<open>(c mod 3) * 595 / 3\<close> and its top edge at
  \<open>(c div 3) * 421\<close>. So the pages fill a sheet from left to right, the top row before
  the bottom row, before the next sheet starts; a page with nothing to show leaves its
  cell empty, and every page is shown inside its cell (\<open>well_placed\<close>). Seven pages
  whose content pages can be shown give one sheet with all six cells filled and page 1
  in the top left cell. The hypothesis \<open>sized\<close> is the one of the 2-up composition.
\<close>

theorem thumbnail_sheets:
  assumes "sized doc_in"
  shows "(length doc_in < 2 \<longrightarrow> create_six_page_thumbnail_pdf doc_in = Inr None) \<and>
         (2 \<le> length doc_in \<longrightarrow>
            (\<exists>sheets. create_six_page_thumbnail_pdf doc_in = Inr (Some sheets) \<and>
               length sheets = (length doc_in - 1 + 5) div 6 \<and>
               (\<forall>j<length sheets. filled_cells (sheets ! j) =
                  map (\<lambda>c. (1 + 6 * j + c, slot_rect c))
                    (filter (\<lambda>c. \<not> nothing_to_show (doc_in ! (1 + 6 * j + c)))
                       [0..<min 6 (length doc_in - 1 - 6 * j)])) \<and>
               (\<forall>j<length sheets. \<forall>p \<in> set (sheets ! j). well_placed doc_in p))) \<and>
         (\<forall>c. slot_rect c =
            Rect (real (c mod 3) * (595 / 3)) (real (c div 3) * 421)
                 (real (c mod 3) * (595 / 3) + 595 / 3) (real (c div 3) * 421 + 421))"
proof -
  from thumb_loop_sized [OF assms refl, of 0 "[]"] obtain sheets where s:
      "thumb_loop doc_in [1..<length doc_in] 0 [] = Inr sheets"
      "length sheets = (length doc_in - 1 + 5) div 6"
      "\<forall>j<length sheets. filled_cells (sheets ! j) = thumb_cells doc_in (6 * j)"
    by auto
  have small: "length doc_in < 2 \<longrightarrow> create_six_page_thumbnail_pdf doc_in = Inr None"
    by (simp add: create_six_page_thumbnail_pdf_def)
  have "list_all (list_all (well_placed doc_in)) sheets"
    by (rule thumb_loop_well [OF assms refl _ s(1)]) simp
  then have well: "\<forall>j<length sheets. \<forall>p \<in> set (sheets ! j). well_placed doc_in p"
    by (auto simp: list_all_iff)
  have cells: "\<forall>j<length sheets. filled_cells (sheets ! j) =
                  map (\<lambda>c. (1 + 6 * j + c, slot_rect c))
                    (filter (\<lambda>c. \<not> nothing_to_show (doc_in ! (1 + 6 * j + c)))
                       [0..<min 6 (length doc_in - 1 - 6 * j)])"
    using s(3) by (simp add: thumb_cells_def)
  have run: "create_six_page_thumbnail_pdf doc_in = Inr (Some sheets)" if "2 \<le> length doc_in"
    using that s(1) by (simp add: create_six_page_thumbnail_pdf_def)
  have big: "2 \<le> length doc_in \<longrightarrow>
            (\<exists>sheets. create_six_page_thumbnail_pdf doc_in = Inr (Some sheets) \<and>
               length sheets = (length doc_in - 1 + 5) div 6 \<and>
               (\<forall>j<length sheets. filled_cells (sheets ! j) =
                  map (\<lambda>c. (1 + 6 * j + c, slot_rect c))
                    (filter (\<lambda>c. \<not> nothing_to_show (doc_in ! (1 + 6 * j + c)))
                       [0..<min 6 (length doc_in - 1 - 6 * j)])) \<and>
               (\<forall>j<length sheets. \<forall>p \<in> set (sheets ! j). well_placed doc_in p))"
  proof
    assume "2 \<le> length doc_in"
    from run [OF this] show "\<exists>sheets. create_six_page_thumbnail_pdf doc_in = Inr (Some sheets) \<and>
               length sheets = (length doc_in - 1 + 5) div 6 \<and>
               (\<forall>j<length sheets. filled_cells (sheets ! j) =
                  map (\<lambda>c. (1 + 6 * j + c, slot_rect c))
                    (filter (\<lambda>c. \<not> nothing_to_show (doc_in ! (1 + 6 * j + c)))
                       [0..<min 6 (length doc_in - 1 - 6 * j)])) \<and>
               (\<forall>j<length sheets. \<forall>p \<in> set (sheets ! j). well_placed doc_in p)"
      by (intro exI [of _ sheets] conjI s(2) cells well)
  qed
  have coords: "\<forall>c. slot_rect c =
            Rect (real (c mod 3) * (595 / 3)) (real (c div 3) * 421)
                 (real (c mod 3) * (595 / 3) + 595 / 3) (real (c div 3) * 421 + 421)"
    by (intro allI slot_rect_coords)
  show ?thesis
    by (rule conjI [OF small conjI [OF big coords]])
qed


lemma slot_rect_examples:
  "slot_rect 0 = Rect 0 0 (595 / 3) 421" "slot_rect 1 = Rect (595 / 3) 0 (1190 / 3) 421"
  "slot_rect 2 = Rect (1190 / 3) 0 595 421" "slot_rect 3 = Rect 0 421 (595 / 3) 842"
  "slot_rect 4 = Rect (595 / 3) 421 (1190 / 3) 842" "slot_rect 5 = Rect (1190 / 3) 421 595 842"
  by (simp_all add: slot_rect_coords)

lemma thumbnail_example_rects:
  "map_sum id (map_option (map (map show_rect)))
     (create_six_page_thumbnail_pdf
        [empty_page, letter_page, letter_page, letter_page, letter_page, letter_page,
         letter_page]) =
   Inr (Some [[Rect 0 0 (595 / 3) (770 / 3), Rect (595 / 3) 0 (1190 / 3) (770 / 3),
               Rect (1190 / 3) 0 595 (770 / 3), Rect 0 421 (595 / 3) (2033 / 3),
               Rect (595 / 3) 421 (1190 / 3) (2033 / 3), Rect (1190 / 3) 421 595 (2033 / 3)]])"
  by (simp add: create_six_page_thumbnail_pdf_def thumb_loop.simps enumerate_list_def
      thumbs_per_page_def columns_def rows_def upt_rec slot_rect_def slot_w_def slot_h_def
      page_width_thumb_def page_height_thumb_def place_eval)

theorem thumbnail_sheets_witness:
  "create_six_page_thumbnail_pdf [empty_page] = Inr None \<and>
   (\<exists>sheets. create_six_page_thumbnail_pdf
        [empty_page, letter_page, letter_page, letter_page, letter_page, letter_page,
         letter_page] = Inr (Some sheets) \<and>
      map filled_cells sheets =
        [[(1, Rect 0 0 (595 / 3) 421), (2, Rect (595 / 3) 0 (1190 / 3) 421),
          (3, Rect (1190 / 3) 0 595 421), (4, Rect 0 421 (595 / 3) 842),
          (5, Rect (595 / 3) 421 (1190 / 3) 842), (6, Rect (1190 / 3) 421 595 842)]] \<and>
      map (map show_rect) sheets =
        [[Rect 0 0 (595 / 3) (770 / 3), Rect (595 / 3) 0 (1190 / 3) (770 / 3),
          Rect (1190 / 3) 0 595 (770 / 3), Rect 0 421 (595 / 3) (2033 / 3),
          Rect (595 / 3) 421 (1190 / 3) (2033 / 3), Rect (1190 / 3) 421 595 (2033 / 3)]])"
proof -
  let ?doc = "[empty_page, letter_page, letter_page, letter_page, letter_page, letter_page,
         letter_page]"
  have one: "create_six_page_thumbnail_pdf [empty_page] = Inr None"
    using thumbnail_sheets [of "[empty_page]"] by (simp add: sized_def example_pages)
  have "sized ?doc"
    by (simp add: sized_def example_pages)
  from thumbnail_sheets [OF this, THEN conjunct2, THEN conjunct1] obtain sheets where s:
      "create_six_page_thumbnail_pdf ?doc = Inr (Some sheets)" "length sheets = 1"
      "\<forall>j<length sheets. filled_cells (sheets ! j) =
                  map (\<lambda>c. (1 + 6 * j + c, slot_rect c))
                    (filter (\<lambda>c. \<not> nothing_to_show (?doc ! (1 + 6 * j + c)))
                       [0..<min 6 (length ?doc - 1 - 6 * j)])"
    by auto
  from s(2) obtain a where a: "sheets = [a]"
    by (auto simp: length_Suc_conv)
  from s(2) have "0 < length sheets" by simp
  from s(3) [rule_format, OF this]
  have "filled_cells a = [(1, slot_rect 0), (2, slot_rect 1), (3, slot_rect 2), (4, slot_rect 3),
          (5, slot_rect 4), (6, slot_rect 5)]"
    by (simp add: a upt_0_6 example_pages eval_nat_numeral)
  then have m: "map filled_cells sheets =
        [[(1, Rect 0 0 (595 / 3) 421), (2, Rect (595 / 3) 0 (1190 / 3) 421),
          (3, Rect (1190 / 3) 0 595 421), (4, Rect 0 421 (595 / 3) 842),
          (5, Rect (595 / 3) 421 (1190 / 3) 842), (6, Rect (1190 / 3) 421 595 842)]]"
    by (simp only: a slot_rect_examples list.map)
  from thumbnail_example_rects have r: "map (map show_rect) sheets =
        [[Rect 0 0 (595 / 3) (770 / 3), Rect (595 / 3) 0 (1190 / 3) (770 / 3),
          Rect (1190 / 3) 0 595 (770 / 3), Rect 0 421 (595 / 3) (2033 / 3),
          Rect (595 / 3) 421 (1190 / 3) (2033 / 3), Rect (1190 / 3) 421 595 (2033 / 3)]]"
    unfolding s(1) by simp
  have ex: "\<exists>sheets. create_six_page_thumbnail_pdf ?doc = Inr (Some sheets) \<and>
      map filled_cells sheets =
        [[(1, Rect 0 0 (595 / 3) 421), (2, Rect (595 / 3) 0 (1190 / 3) 421),
          (3, Rect (1190 / 3) 0 595 421), (4, Rect 0 421 (595 / 3) 842),
          (5, Rect (595 / 3) 421 (1190 / 3) 842), (6, Rect (1190 / 3) 421 595 842)]] \<and>
      map (map show_rect) sheets =
        [[Rect 0 0 (595 / 3) (770 / 3), Rect (595 / 3) 0 (1190 / 3) (770 / 3),
          Rect (1190 / 3) 0 595 (770 / 3), Rect 0 421 (595 / 3) (2033 / 3),
          Rect (595 / 3) 421 (1190 / 3) (2033 / 3), Rect (1190 / 3) 421 595 (2033 / 3)]]"
    by (rule exI [of _ sheets]) (simp only: s(1) m r)
  show ?thesis
    by (rule conjI [OF one ex])
qed

subsection \<open>Personalization blocks\<close>

lemma descriptor_is_stop: "is_descriptor l \<Longrightarrow> has_stop_keyword l"
  by (auto simp: is_descriptor_def has_stop_keyword_def item_descriptors_def stop_keywords_def)

lemma flag_before_0: "flag_before lines_data 0 = False"
  by (simp add: flag_before_def)

lemma flag_before_Suc:
  assumes "i < length lines_data"
  shows "flag_before lines_data (Suc i) =
           (if is_descriptor (lines_data ! i) then has_custom (lines_data ! i)
            else flag_before lines_data i)"
  using assms by (simp add: flag_before_def take_Suc_conv_app_nth Let_def)

lemma block_loop_idx:
  "n \<le> fst (block_loop opts p lines_data n out) \<and>
   (n \<le> length lines_data \<longrightarrow> fst (block_loop opts p lines_data n out) \<le> length lines_data) \<and>
   (\<forall>j. n \<le> j \<and> j < fst (block_loop opts p lines_data n out) \<longrightarrow>
        \<not> has_stop_keyword (lines_data ! j) \<and> \<not> has_marker (lines_data ! j)) \<and>
   (fst (block_loop opts p lines_data n out) < length lines_data \<longrightarrow>
      has_stop_keyword (lines_data ! fst (block_loop opts p lines_data n out)) \<or>
      has_marker (lines_data ! fst (block_loop opts p lines_data n out)))"
proof (induction opts p lines_data n out rule: block_loop.induct)
  case (1 opts p lines_data n out)
  show ?case
  proof (cases "n < length lines_data \<and> \<not> has_stop_keyword (lines_data ! n)
                \<and> \<not> has_marker (lines_data ! n)")
    case False
    then have "block_loop opts p lines_data n out = (n, out)"
      by (subst block_loop.simps) auto
    with False show ?thesis by auto
  next
    case True
    define out' where "out' = emit_line opts p (lines_data ! n) out"
    from True have eq: "block_loop opts p lines_data n out = block_loop opts p lines_data (n + 1) out'"
      by (subst block_loop.simps) (simp add: out'_def)
    from True "1.IH" have IH:
      "n + 1 \<le> fst (block_loop opts p lines_data (n + 1) out')"
      "fst (block_loop opts p lines_data (n + 1) out') \<le> length lines_data"
      "\<forall>j. n + 1 \<le> j \<and> j < fst (block_loop opts p lines_data (n + 1) out') \<longrightarrow>
        \<not> has_stop_keyword (lines_data ! j) \<and> \<not> has_marker (lines_data ! j)"
      "fst (block_loop opts p lines_data (n + 1) out') < length lines_data \<longrightarrow>
        has_stop_keyword (lines_data ! fst (block_loop opts p lines_data (n + 1) out')) \<or>
        has_marker (lines_data ! fst (block_loop opts p lines_data (n + 1) out'))"
      by (simp_all add: out'_def)
    have "\<not> has_stop_keyword (lines_data ! j) \<and> \<not> has_marker (lines_data ! j)"
      if "n \<le> j" "j < fst (block_loop opts p lines_data (n + 1) out')" for j
    proof (cases "j = n")
      case True
      with \<open>n < length lines_data \<and> _\<close> show ?thesis by simp
    next
      case False
      with that have "n + 1 \<le> j" by simp
      with IH(3) that(2) show ?thesis by blast
    qed
    with IH(1,2,4) show ?thesis
      unfolding eq by simp
  qed
qed

lemma scan_step_open:
  assumes "has_marker (lines_data ! idx s)" and "next_flag lines_data s"
  shows "idx (scan_step opts p lines_data s) = block_end opts p lines_data s"
    and "opened (scan_step opts p lines_data s) =
           opened s @ [(idx s, block_end opts p lines_data s)]"
    and "current_item_has_custom (scan_step opts p lines_data s) = next_flag lines_data s"
  using assms
  by (simp_all add: scan_step_def block_end_def next_flag_def Let_def split: prod.splits)

lemma scan_step_pass:
  assumes "\<not> (has_marker (lines_data ! idx s) \<and> next_flag lines_data s)"
  shows "idx (scan_step opts p lines_data s) = idx s + 1"
    and "opened (scan_step opts p lines_data s) = opened s"
    and "emitted (scan_step opts p lines_data s) = emitted s"
    and "current_item_has_custom (scan_step opts p lines_data s) = next_flag lines_data s"
  using assms
  by (auto simp: scan_step_def next_flag_def Let_def split: prod.splits)

lemma block_end_props:
  assumes "idx s < length lines_data"
  shows "idx s < block_end opts p lines_data s"
    and "block_end opts p lines_data s \<le> length lines_data"
    and "\<And>j. idx s < j \<Longrightarrow> j < block_end opts p lines_data s \<Longrightarrow>
           \<not> has_stop_keyword (lines_data ! j) \<and> \<not> has_marker (lines_data ! j)"
    and "block_end opts p lines_data s < length lines_data \<Longrightarrow>
           has_stop_keyword (lines_data ! block_end opts p lines_data s) \<or>
           has_marker (lines_data ! block_end opts p lines_data s)"
proof -
  note b = block_loop_idx [of "idx s + 1" opts p lines_data
      "emit_line opts p (lines_data ! idx s) (emitted s)", folded block_end_def]
  from b show "idx s < block_end opts p lines_data s" by simp
  from b assms show "block_end opts p lines_data s \<le> length lines_data" by simp
  show "\<not> has_stop_keyword (lines_data ! j) \<and> \<not> has_marker (lines_data ! j)"
    if "idx s < j" "j < block_end opts p lines_data s" for j
  proof -
    from that have "idx s + 1 \<le> j \<and> j < block_end opts p lines_data s" by simp
    with b show ?thesis by blast
  qed
  from b show "block_end opts p lines_data s < length lines_data \<Longrightarrow>
           has_stop_keyword (lines_data ! block_end opts p lines_data s) \<or>
           has_marker (lines_data ! block_end opts p lines_data s)"
    by blast
qed

lemma chained_mono: "chained lo' n bs \<Longrightarrow> lo \<le> lo' \<Longrightarrow> chained lo n bs"
  by (cases bs) auto

lemma scan_loop_chained:
  assumes "idx s \<le> length lines_data"
  shows "\<exists>new. opened (scan_loop opts p lines_data s) = opened s @ new \<and>
           chained (idx s) (length lines_data) new"
  using assms
proof (induction opts p lines_data s rule: scan_loop.induct)
  case (1 opts p lines_data s)
  show ?case
  proof (cases "idx s < length lines_data")
    case False
    then have "scan_loop opts p lines_data s = s"
      by (subst scan_loop.simps) simp
    then show ?thesis by simp
  next
    case True
    define s' where "s' = scan_step opts p lines_data s"
    from True have run: "scan_loop opts p lines_data s = scan_loop opts p lines_data s'"
      by (subst scan_loop.simps) (simp add: s'_def)
    show ?thesis
    proof (cases "has_marker (lines_data ! idx s) \<and> next_flag lines_data s")
      case opens: True
      then have s': "idx s' = block_end opts p lines_data s"
          "opened s' = opened s @ [(idx s, block_end opts p lines_data s)]"
        by (simp_all add: s'_def scan_step_open)
      from block_end_props(1,2) [OF True, where opts = opts and p = p]
      have e: "idx s < block_end opts p lines_data s"
          "block_end opts p lines_data s \<le> length lines_data" .
      from e(2) s'(1) have "idx s' \<le> length lines_data" by simp
      from "1.IH" [OF True this [unfolded s'_def]] obtain new where new:
          "opened (scan_loop opts p lines_data s') = opened s' @ new"
          "chained (idx s') (length lines_data) new"
        unfolding s'_def by blast
      have "opened (scan_loop opts p lines_data s) =
              opened s @ (idx s, block_end opts p lines_data s) # new"
        by (simp add: run new(1) s'(2))
      moreover have "chained (idx s) (length lines_data)
            ((idx s, block_end opts p lines_data s) # new)"
        using e new(2) by (simp add: s'(1))
      ultimately show ?thesis by blast
    next
      case False
      then have s': "idx s' = idx s + 1" "opened s' = opened s"
        by (simp_all add: s'_def scan_step_pass)
      from True s'(1) have "idx s' \<le> length lines_data" by simp
      from "1.IH" [OF True this [unfolded s'_def]] obtain new where new:
          "opened (scan_loop opts p lines_data s') = opened s' @ new"
          "chained (idx s') (length lines_data) new"
        unfolding s'_def by blast
      from new(2) have "chained (idx s) (length lines_data) new"
        by (rule chained_mono) (simp add: s'(1))
      with new(1) show ?thesis
        by (simp add: run s'(2))
    qed
  qed
qed

lemma flag_before_skip:
  assumes "a \<le> b" and "b \<le> length lines_data"
      and "\<And>j. a \<le> j \<Longrightarrow> j < b \<Longrightarrow> \<not> is_descriptor (lines_data ! j)"
  shows "flag_before lines_data b = flag_before lines_data a"
  using assms
proof (induction b)
  case 0
  then show ?case by simp
next
  case (Suc b)
  show ?case
  proof (cases "a = Suc b")
    case True
    then show ?thesis by simp
  next
    case False
    with Suc.prems have ab: "a \<le> b" "b < length lines_data" by simp_all
    from Suc.prems(3) [of b] ab have "\<not> is_descriptor (lines_data ! b)" by simp
    with ab(2) have "flag_before lines_data (Suc b) = flag_before lines_data b"
      by (simp add: flag_before_Suc)
    also from Suc.IH ab Suc.prems(3) have "\<dots> = flag_before lines_data a"
      by simp
    finally show ?thesis .
  qed
qed

lemma filter_upt_skip:
  assumes "i < e" and "e \<le> n" and "\<And>j. i < j \<Longrightarrow> j < e \<Longrightarrow> \<not> P j"
  shows "filter P [i..<n] = (if P i then [i] else []) @ filter P [e..<n]"
proof -
  from assms(1,2) have "[i..<e + (n - e)] = [i..<e] @ [e..<e + (n - e)]"
    by (intro upt_add_eq_append) simp
  with assms(2) have "[i..<n] = [i..<e] @ [e..<n]"
    by simp
  moreover from assms(1) have "[i..<e] = i # [Suc i..<e]"
    by (rule upt_conv_Cons)
  ultimately have "[i..<n] = i # [Suc i..<e] @ [e..<n]"
    by simp
  moreover from assms(3) have "filter P [Suc i..<e] = []"
    by (auto simp: filter_empty_conv)
  ultimately show ?thesis by simp
qed

lemma scan_loop_opened:
  assumes "idx s \<le> length lines_data"
      and "current_item_has_custom s = flag_before lines_data (idx s)"
  shows "map fst (opened (scan_loop opts p lines_data s)) =
           map fst (opened s) @
           filter (\<lambda>j. has_marker (lines_data ! j) \<and> custom_flag_at lines_data j)
             [idx s..<length lines_data]"
  using assms
proof (induction opts p lines_data s rule: scan_loop.induct)
  case (1 opts p lines_data s)
  let ?P = "\<lambda>j. has_marker (lines_data ! j) \<and> custom_flag_at lines_data j"
  show ?case
  proof (cases "idx s < length lines_data")
    case False
    then have "scan_loop opts p lines_data s = s"
      by (subst scan_loop.simps) simp
    with False show ?thesis by simp
  next
    case True
    define s' where "s' = scan_step opts p lines_data s"
    from True have run: "scan_loop opts p lines_data s = scan_loop opts p lines_data s'"
      by (subst scan_loop.simps) (simp add: s'_def)
    from True "1.prems"(2) have flag: "next_flag lines_data s = custom_flag_at lines_data (idx s)"
      by (simp add: next_flag_def custom_flag_at_def flag_before_Suc)
    show ?thesis
    proof (cases "has_marker (lines_data ! idx s) \<and> next_flag lines_data s")
      case opens: True
      then have s': "idx s' = block_end opts p lines_data s"
          "opened s' = opened s @ [(idx s, block_end opts p lines_data s)]"
          "current_item_has_custom s' = next_flag lines_data s"
        by (simp_all add: s'_def scan_step_open)
      note e = block_end_props [OF True, where opts = opts and p = p]
      have no_desc: "\<not> is_descriptor (lines_data ! j)"
        if "Suc (idx s) \<le> j" "j < block_end opts p lines_data s" for j
        using e(3) [of j] that descriptor_is_stop by auto
      from e(1,2) have "flag_before lines_data (block_end opts p lines_data s) =
          flag_before lines_data (Suc (idx s))"
        by (intro flag_before_skip no_desc) simp_all
      with s'(1,3) flag have inv: "current_item_has_custom s' = flag_before lines_data (idx s')"
        by (simp add: custom_flag_at_def)
      from e(2) s'(1) have le: "idx s' \<le> length lines_data" by simp
      from "1.IH" [OF True le [unfolded s'_def] inv [unfolded s'_def]]
      have IH: "map fst (opened (scan_loop opts p lines_data s')) =
          map fst (opened s') @ filter ?P [idx s'..<length lines_data]"
        unfolding s'_def .
      have "filter ?P [idx s..<length lines_data] =
          (if ?P (idx s) then [idx s] else []) @
          filter ?P [block_end opts p lines_data s..<length lines_data]"
        using e(1,2) e(3) by (intro filter_upt_skip) simp_all
      with opens flag have "filter ?P [idx s..<length lines_data] =
          idx s # filter ?P [idx s'..<length lines_data]"
        by (simp add: s'(1))
      with IH show ?thesis
        by (simp add: run s'(2))
    next
      case False
      then have s': "idx s' = idx s + 1" "opened s' = opened s"
          "current_item_has_custom s' = next_flag lines_data s"
        by (simp_all add: s'_def scan_step_pass)
      from s'(1,3) flag have inv: "current_item_has_custom s' = flag_before lines_data (idx s')"
        by (simp add: custom_flag_at_def)
      from True s'(1) have le: "idx s' \<le> length lines_data" by simp
      from "1.IH" [OF True le [unfolded s'_def] inv [unfolded s'_def]]
      have IH: "map fst (opened (scan_loop opts p lines_data s')) =
          map fst (opened s') @ filter ?P [idx s'..<length lines_data]"
        unfolding s'_def .
      from True have "[idx s..<length lines_data] = idx s # [Suc (idx s)..<length lines_data]"
        by (rule upt_conv_Cons)
      with False flag have "filter ?P [idx s..<length lines_data] =
          filter ?P [idx s'..<length lines_data]"
        by (simp add: s'(1))
      with IH show ?thesis
        by (simp add: run s'(2))
    qed
  qed
qed

lemma chained_nth:
  "chained lo n bs \<Longrightarrow> k < length bs \<Longrightarrow>
     lo \<le> fst (bs ! k) \<and> fst (bs ! k) < snd (bs ! k) \<and> snd (bs ! k) \<le> n"
proof (induction bs arbitrary: lo k)
  case Nil
  then show ?case by simp
next
  case (Cons b bs)
  obtain a e where b: "b = (a, e)" by (cases b)
  show ?case
  proof (cases k)
    case 0
    with Cons.prems b show ?thesis by simp
  next
    case (Suc k')
    with Cons.prems b have "chained e n bs" "k' < length bs" "lo \<le> e" by simp_all
    with Cons.IH [of e k'] Suc show ?thesis by simp
  qed
qed

lemma chained_pair:
  "chained lo n bs \<Longrightarrow> k < k' \<Longrightarrow> k' < length bs \<Longrightarrow> snd (bs ! k) \<le> fst (bs ! k')"
proof (induction bs arbitrary: lo k k')
  case Nil
  then show ?case by simp
next
  case (Cons b bs)
  obtain a e where b: "b = (a, e)" by (cases b)
  from Cons.prems obtain j' where k': "k' = Suc j'" by (cases k') auto
  from Cons.prems b k' have ch: "chained e n bs" "j' < length bs" by simp_all
  show ?case
  proof (cases k)
    case 0
    from chained_nth [OF ch] have "e \<le> fst (bs ! j')" by simp
    with 0 b k' show ?thesis by simp
  next
    case (Suc j)
    with Cons.prems k' have "j < j'" by simp
    from Cons.IH [OF ch(1) this ch(2)] Suc k' show ?thesis by simp
  qed
qed

lemma block_loop_out:
  "snd (block_loop opts p lines_data n out) =
     foldl (\<lambda>acc j. emit_line opts p (lines_data ! j) acc) out
       [n..<fst (block_loop opts p lines_data n out)]"
proof (induction opts p lines_data n out rule: block_loop.induct)
  case (1 opts p lines_data n out)
  show ?case
  proof (cases "n < length lines_data \<and> \<not> has_stop_keyword (lines_data ! n)
                \<and> \<not> has_marker (lines_data ! n)")
    case False
    then have "block_loop opts p lines_data n out = (n, out)"
      by (subst block_loop.simps) auto
    then show ?thesis by simp
  next
    case True
    define out' where "out' = emit_line opts p (lines_data ! n) out"
    from True have eq: "block_loop opts p lines_data n out = block_loop opts p lines_data (n + 1) out'"
      by (subst block_loop.simps) (simp add: out'_def)
    from True "1.IH" have IH: "snd (block_loop opts p lines_data (n + 1) out') =
        foldl (\<lambda>acc j. emit_line opts p (lines_data ! j) acc) out'
          [n + 1..<fst (block_loop opts p lines_data (n + 1) out')]"
      by (simp add: out'_def)
    have "n < fst (block_loop opts p lines_data (n + 1) out')"
      using block_loop_ge [of "n + 1" opts p lines_data out'] by simp
    then have "[n..<fst (block_loop opts p lines_data (n + 1) out')] =
        n # [n + 1..<fst (block_loop opts p lines_data (n + 1) out')]"
      by (simp add: upt_conv_Cons)
    with IH show ?thesis
      unfolding eq by (simp add: out'_def)
  qed
qed

lemma scan_loop_emitted:
  "\<exists>new. opened (scan_loop opts p lines_data s) = opened s @ new \<and>
     emitted (scan_loop opts p lines_data s) =
       foldl (\<lambda>acc j. emit_line opts p (lines_data ! j) acc) (emitted s) (block_lines new)"
proof (induction opts p lines_data s rule: scan_loop.induct)
  case (1 opts p lines_data s)
  show ?case
  proof (cases "idx s < length lines_data")
    case False
    then have "scan_loop opts p lines_data s = s"
      by (subst scan_loop.simps) simp
    then show ?thesis by (simp add: block_lines_def)
  next
    case True
    define s' where "s' = scan_step opts p lines_data s"
    from True have run: "scan_loop opts p lines_data s = scan_loop opts p lines_data s'"
      by (subst scan_loop.simps) (simp add: s'_def)
    from "1.IH" [OF True] obtain new where new:
        "opened (scan_loop opts p lines_data s') = opened s' @ new"
        "emitted (scan_loop opts p lines_data s') =
           foldl (\<lambda>acc j. emit_line opts p (lines_data ! j) acc) (emitted s') (block_lines new)"
      unfolding s'_def by blast
    show ?thesis
    proof (cases "has_marker (lines_data ! idx s) \<and> next_flag lines_data s")
      case opens: True
      then have s': "opened s' = opened s @ [(idx s, block_end opts p lines_data s)]"
        by (simp add: s'_def scan_step_open)
      from opens have "emitted s' =
          snd (block_loop opts p lines_data (idx s + 1)
                 (emit_line opts p (lines_data ! idx s) (emitted s)))"
        by (simp add: s'_def scan_step_def next_flag_def Let_def split: prod.splits)
      also have "\<dots> = foldl (\<lambda>acc j. emit_line opts p (lines_data ! j) acc)
          (emit_line opts p (lines_data ! idx s) (emitted s))
          [idx s + 1..<block_end opts p lines_data s]"
        unfolding block_end_def by (rule block_loop_out)
      also have "\<dots> = foldl (\<lambda>acc j. emit_line opts p (lines_data ! j) acc) (emitted s)
          [idx s..<block_end opts p lines_data s]"
        using block_end_props(1) [OF True, where opts = opts and p = p]
        by (simp add: upt_conv_Cons)
      finally have "emitted (scan_loop opts p lines_data s) =
          foldl (\<lambda>acc j. emit_line opts p (lines_data ! j) acc) (emitted s)
            (block_lines ((idx s, block_end opts p lines_data s) # new))"
        by (simp add: run new(2) block_lines_def)
      moreover have "opened (scan_loop opts p lines_data s) =
          opened s @ (idx s, block_end opts p lines_data s) # new"
        by (simp add: run new(1) s')
      ultimately show ?thesis by blast
    next
      case False
      then have "opened s' = opened s" "emitted s' = emitted s"
        by (simp_all add: s'_def scan_step_pass)
      with new show ?thesis
        by (simp add: run)
    qed
  qed
qed

lemma foldl_emit_line:
  "foldl (\<lambda>acc j. emit_line opts p (lines_data ! j) acc) out js =
     (fst out @ (if extract_text opts then map (\<lambda>j. (p, line_text (lines_data ! j))) js else []),
      snd out @ (if highlight_personalization opts
                 then concat (map (\<lambda>j. highlight_words (word_list (lines_data ! j))) js)
                 else []))"
  by (induction js arbitrary: out) (simp_all add: emit_line_def)

text \<open>
  What the scan emits is what its blocks hold: the paragraphs and the highlights of a
  page are those of the lines \<open>a, ..., b - 1\<close> of every opened block \<open>(a, b)\<close>, block
  after block.
\<close>

lemma personalization_output_of_blocks:
  "emitted (personalization_scan opts p lines_data out) =
     (fst out @
        (if extract_text opts
         then map (\<lambda>j. (p, line_text (lines_data ! j)))
                (block_lines (opened (personalization_scan opts p lines_data out)))
         else []),
      snd out @
        (if highlight_personalization opts
         then concat (map (\<lambda>j. highlight_words (word_list (lines_data ! j)))
                (block_lines (opened (personalization_scan opts p lines_data out))))
         else []))"
  using scan_loop_emitted [of opts p lines_data
      "\<lparr>idx = 0, current_item_has_custom = False, emitted = out, opened = []\<rparr>"]
  by (auto simp: personalization_scan_def foldl_emit_line)

text \<open>
  Claim C3. The scan of a page opens a personalization block exactly at the lines that
  contain "personalization:" and for which the most recent item-descriptor line, the
  line itself being the most recent one when it is a descriptor, contains "custom":
  the indices of the opened blocks are the indices \<open>i\<close> with \<open>has_marker\<close> and
  \<open>custom_flag_at\<close>. Every pass through the loop body at a descriptor line sets the flag
  to whether that line contains "custom" and leaves it alone at any other line, so a
  later descriptor line decides for the markers after it; with no descriptor line so far
  the flag is false.
\<close>

theorem personalization_gate:
  "map fst (opened (personalization_scan opts p lines_data out)) =
     filter (\<lambda>i. has_marker (lines_data ! i) \<and> custom_flag_at lines_data i)
       [0..<length lines_data] \<and>
   (\<forall>s. idx s < length lines_data \<longrightarrow>
      current_item_has_custom (scan_step opts p lines_data s) =
        (if is_descriptor (lines_data ! idx s) then has_custom (lines_data ! idx s)
         else current_item_has_custom s)) \<and>
   (\<forall>i. custom_flag_at lines_data i =
      (case filter is_descriptor (take (Suc i) lines_data) of
         [] \<Rightarrow> False
       | d # ds \<Rightarrow> has_custom (last (d # ds))))"
proof -
  have "map fst (opened (personalization_scan opts p lines_data out)) =
     filter (\<lambda>i. has_marker (lines_data ! i) \<and> custom_flag_at lines_data i)
       [0..<length lines_data]"
    unfolding personalization_scan_def
    by (subst scan_loop_opened) (simp_all add: flag_before_0)
  moreover have "current_item_has_custom (scan_step opts p lines_data s) =
        (if is_descriptor (lines_data ! idx s) then has_custom (lines_data ! idx s)
         else current_item_has_custom s)" for s
    by (simp add: scan_step_def Let_def split: prod.splits)
  moreover have "custom_flag_at lines_data i =
      (case filter is_descriptor (take (Suc i) lines_data) of
         [] \<Rightarrow> False
       | d # ds \<Rightarrow> has_custom (last (d # ds)))" for i
    unfolding custom_flag_at_def flag_before_def Let_def
    by (cases "filter is_descriptor (take (Suc i) lines_data)") simp_all
  ultimately show ?thesis by blast
qed

text \<open>
  Claim C4. When a pass through the loop body opens a block at line \<open>idx\<close>, the scan
  resumes at an index \<open>e > idx\<close> that is either the number of lines or the index of a
  line that contains a stop keyword or the marker; no line strictly between \<open>idx\<close> and
  \<open>e\<close> contains either, and the block is \<open>(idx, e)\<close>. When the line contains the
  marker and the flag is false after the descriptor check, the pass opens nothing, emits
  nothing and moves \<open>idx\<close> by one. Over a whole page, every block \<open>(a, b)\<close> has
  \<open>a < b \<le> length lines_data\<close> and a later block starts at or after the end of an
  earlier one, so no line lies in two blocks.
\<close>

theorem blocks_do_not_overlap:
  "(\<forall>s. idx s < length lines_data \<and> has_marker (lines_data ! idx s) \<and> next_flag lines_data s \<longrightarrow>
      idx s < idx (scan_step opts p lines_data s) \<and>
      idx (scan_step opts p lines_data s) \<le> length lines_data \<and>
      (idx (scan_step opts p lines_data s) < length lines_data \<longrightarrow>
         has_stop_keyword (lines_data ! idx (scan_step opts p lines_data s)) \<or>
         has_marker (lines_data ! idx (scan_step opts p lines_data s))) \<and>
      (\<forall>j. idx s < j \<and> j < idx (scan_step opts p lines_data s) \<longrightarrow>
         \<not> has_stop_keyword (lines_data ! j) \<and> \<not> has_marker (lines_data ! j)) \<and>
      opened (scan_step opts p lines_data s) =
        opened s @ [(idx s, idx (scan_step opts p lines_data s))]) \<and>
   (\<forall>s. has_marker (lines_data ! idx s) \<and> \<not> next_flag lines_data s \<longrightarrow>
      idx (scan_step opts p lines_data s) = idx s + 1 \<and>
      opened (scan_step opts p lines_data s) = opened s \<and>
      emitted (scan_step opts p lines_data s) = emitted s) \<and>
   (\<forall>k < length (opened (personalization_scan opts p lines_data out)).
      fst (opened (personalization_scan opts p lines_data out) ! k) <
        snd (opened (personalization_scan opts p lines_data out) ! k) \<and>
      snd (opened (personalization_scan opts p lines_data out) ! k) \<le> length lines_data) \<and>
   (\<forall>k k'. k < k' \<and> k' < length (opened (personalization_scan opts p lines_data out)) \<longrightarrow>
      snd (opened (personalization_scan opts p lines_data out) ! k) \<le>
        fst (opened (personalization_scan opts p lines_data out) ! k'))"
proof -
  have step_open: "idx s < idx (scan_step opts p lines_data s) \<and>
      idx (scan_step opts p lines_data s) \<le> length lines_data \<and>
      (idx (scan_step opts p lines_data s) < length lines_data \<longrightarrow>
         has_stop_keyword (lines_data ! idx (scan_step opts p lines_data s)) \<or>
         has_marker (lines_data ! idx (scan_step opts p lines_data s))) \<and>
      (\<forall>j. idx s < j \<and> j < idx (scan_step opts p lines_data s) \<longrightarrow>
         \<not> has_stop_keyword (lines_data ! j) \<and> \<not> has_marker (lines_data ! j)) \<and>
      opened (scan_step opts p lines_data s) =
        opened s @ [(idx s, idx (scan_step opts p lines_data s))]"
    if "idx s < length lines_data" "has_marker (lines_data ! idx s)" "next_flag lines_data s" for s
  proof -
    note st = scan_step_open [OF that(2,3), where opts = opts and p = p]
    note e = block_end_props [OF that(1), where opts = opts and p = p]
    from e show ?thesis
      unfolding st by blast
  qed
  have step_pass: "idx (scan_step opts p lines_data s) = idx s + 1 \<and>
      opened (scan_step opts p lines_data s) = opened s \<and>
      emitted (scan_step opts p lines_data s) = emitted s"
    if "has_marker (lines_data ! idx s)" "\<not> next_flag lines_data s" for s
    using that by (simp add: scan_step_pass)
  from scan_loop_chained [of "\<lparr>idx = 0, current_item_has_custom = False, emitted = out, opened = []\<rparr>"
      lines_data opts p]
  have ch: "chained 0 (length lines_data) (opened (personalization_scan opts p lines_data out))"
    by (auto simp: personalization_scan_def)
  have inside: "fst (opened (personalization_scan opts p lines_data out) ! k) <
        snd (opened (personalization_scan opts p lines_data out) ! k) \<and>
      snd (opened (personalization_scan opts p lines_data out) ! k) \<le> length lines_data"
    if "k < length (opened (personalization_scan opts p lines_data out))" for k
    using chained_nth [OF ch that] by simp
  have apart: "snd (opened (personalization_scan opts p lines_data out) ! k) \<le>
        fst (opened (personalization_scan opts p lines_data out) ! k')"
    if "k < k'" "k' < length (opened (personalization_scan opts p lines_data out))" for k k'
    using chained_pair [OF ch that] .
  have a: "\<forall>s. idx s < length lines_data \<and> has_marker (lines_data ! idx s) \<and> next_flag lines_data s \<longrightarrow>
      idx s < idx (scan_step opts p lines_data s) \<and>
      idx (scan_step opts p lines_data s) \<le> length lines_data \<and>
      (idx (scan_step opts p lines_data s) < length lines_data \<longrightarrow>
         has_stop_keyword (lines_data ! idx (scan_step opts p lines_data s)) \<or>
         has_marker (lines_data ! idx (scan_step opts p lines_data s))) \<and>
      (\<forall>j. idx s < j \<and> j < idx (scan_step opts p lines_data s) \<longrightarrow>
         \<not> has_stop_keyword (lines_data ! j) \<and> \<not> has_marker (lines_data ! j)) \<and>
      opened (scan_step opts p lines_data s) =
        opened s @ [(idx s, idx (scan_step opts p lines_data s))]"
  proof (intro allI impI)
    fix s
    assume "idx s < length lines_data \<and> has_marker (lines_data ! idx s) \<and> next_flag lines_data s"
    then have "idx s < length lines_data" "has_marker (lines_data ! idx s)" "next_flag lines_data s"
      by simp_all
    then show "idx s < idx (scan_step opts p lines_data s) \<and>
      idx (scan_step opts p lines_data s) \<le> length lines_data \<and>
      (idx (scan_step opts p lines_data s) < length lines_data \<longrightarrow>
         has_stop_keyword (lines_data ! idx (scan_step opts p lines_data s)) \<or>
         has_marker (lines_data ! idx (scan_step opts p lines_data s))) \<and>
      (\<forall>j. idx s < j \<and> j < idx (scan_step opts p lines_data s) \<longrightarrow>
         \<not> has_stop_keyword (lines_data ! j) \<and> \<not> has_marker (lines_data ! j)) \<and>
      opened (scan_step opts p lines_data s) =
        opened s @ [(idx s, idx (scan_step opts p lines_data s))]"
      by (rule step_open)
  qed
  have b: "\<forall>s. has_marker (lines_data ! idx s) \<and> \<not> next_flag lines_data s \<longrightarrow>
      idx (scan_step opts p lines_data s) = idx s + 1 \<and>
      opened (scan_step opts p lines_data s) = opened s \<and>
      emitted (scan_step opts p lines_data s) = emitted s"
    using step_pass by simp
  have c: "\<forall>k < length (opened (personalization_scan opts p lines_data out)).
      fst (opened (personalization_scan opts p lines_data out) ! k) <
        snd (opened (personalization_scan opts p lines_data out) ! k) \<and>
      snd (opened (personalization_scan opts p lines_data out) ! k) \<le> length lines_data"
    using inside by simp
  have d: "\<forall>k k'. k < k' \<and> k' < length (opened (personalization_scan opts p lines_data out)) \<longrightarrow>
      snd (opened (personalization_scan opts p lines_data out) ! k) \<le>
        fst (opened (personalization_scan opts p lines_data out) ! k')"
    using apart by simp
  show ?thesis
    by (rule conjI [OF a conjI [OF b conjI [OF c d]]])
qed

lemma custom_flag_at_0:
  "0 < length lines_data \<Longrightarrow>
     custom_flag_at lines_data 0 = (is_descriptor (lines_data ! 0) \<and> has_custom (lines_data ! 0))"
  by (simp add: custom_flag_at_def flag_before_Suc flag_before_0)

lemma custom_flag_at_step:
  "0 < i \<Longrightarrow> i < length lines_data \<Longrightarrow>
     custom_flag_at lines_data i =
       (if is_descriptor (lines_data ! i) then has_custom (lines_data ! i)
        else custom_flag_at lines_data (i - 1))"
  by (cases i) (simp_all add: custom_flag_at_def flag_before_Suc)

lemmas line_eval = is_descriptor_def has_custom_def has_marker_def has_stop_keyword_def
  item_descriptors_def stop_keywords_def personalization_marker_def ex_line_def
  lower_def lower_char_def startswith_def

lemma gate_lines_length: "length gate_lines = 8"
  by (simp add: gate_lines_def)

lemma gate_lines_descriptor:
  "is_descriptor (gate_lines ! 0)" "\<not> is_descriptor (gate_lines ! 1)"
  "\<not> is_descriptor (gate_lines ! 2)" "\<not> is_descriptor (gate_lines ! 3)"
  "is_descriptor (gate_lines ! 4)" "\<not> is_descriptor (gate_lines ! 5)"
  "is_descriptor (gate_lines ! 6)" "\<not> is_descriptor (gate_lines ! 7)"
  by (simp_all add: gate_lines_def line_eval)

lemma gate_lines_custom:
  "has_custom (gate_lines ! 0)" "\<not> has_custom (gate_lines ! 4)" "has_custom (gate_lines ! 6)"
  by (simp_all add: gate_lines_def line_eval)

lemma gate_lines_marker:
  "\<not> has_marker (gate_lines ! 0)" "has_marker (gate_lines ! 1)"
  "\<not> has_marker (gate_lines ! 2)" "\<not> has_marker (gate_lines ! 3)"
  "\<not> has_marker (gate_lines ! 4)" "has_marker (gate_lines ! 5)"
  "\<not> has_marker (gate_lines ! 6)" "has_marker (gate_lines ! 7)"
  by (simp_all add: gate_lines_def line_eval)

lemma gate_lines_stop:
  "\<not> has_stop_keyword (gate_lines ! 2)" "has_stop_keyword (gate_lines ! 3)"
  by (simp_all add: gate_lines_def line_eval)

lemma upt_0_8: "[0..<8] = [0, 1, 2, 3, 4, 5, 6, 7]"
  by (simp add: upt_rec)

lemmas gate_eval = gate_lines_length gate_lines_descriptor gate_lines_custom gate_lines_marker
  gate_lines_stop

lemma gate_lines_opened:
  "opened (personalization_scan all_options 1 gate_lines ([], [])) = [(1, 3), (7, 8)]"
  by (simp add: personalization_scan_def scan_loop.simps scan_step_def block_loop.simps
      Let_def gate_eval del: One_nat_def)

theorem personalization_gate_witness:
  "map fst (opened (personalization_scan all_options 1 gate_lines ([], []))) = [1, 7] \<and>
   is_descriptor (gate_lines ! 4) \<and> \<not> has_custom (gate_lines ! 4) \<and>
   has_marker (gate_lines ! 5) \<and> \<not> custom_flag_at gate_lines 5 \<and>
   is_descriptor (gate_lines ! 6) \<and> has_custom (gate_lines ! 6) \<and>
   has_marker (gate_lines ! 7) \<and> custom_flag_at gate_lines 7"
  using personalization_gate [THEN conjunct1, of all_options 1 gate_lines "([], [])"]
  by (simp add: gate_eval upt_0_8 custom_flag_at_0 custom_flag_at_step del: One_nat_def)

theorem blocks_do_not_overlap_witness:
  "idx (scan_step all_options 1 gate_lines
      \<lparr>idx = 1, current_item_has_custom = True, emitted = ([], []), opened = []\<rparr>) = 3 \<and>
   opened (scan_step all_options 1 gate_lines
      \<lparr>idx = 1, current_item_has_custom = True, emitted = ([], []), opened = []\<rparr>) = [(1, 3)] \<and>
   has_stop_keyword (gate_lines ! 3) \<and>
   idx (scan_step all_options 1 gate_lines
      \<lparr>idx = 5, current_item_has_custom = False, emitted = ([], []), opened = [(1, 3)]\<rparr>) = 6 \<and>
   opened (scan_step all_options 1 gate_lines
      \<lparr>idx = 5, current_item_has_custom = False, emitted = ([], []), opened = [(1, 3)]\<rparr>) =
     [(1, 3)] \<and>
   opened (personalization_scan all_options 1 gate_lines ([], [])) = [(1, 3), (7, 8)]"
proof -
  let ?s1 = "\<lparr>idx = 1, current_item_has_custom = True, emitted = ([], []), opened = []\<rparr>"
  let ?s5 = "\<lparr>idx = 5, current_item_has_custom = False, emitted = ([], []), opened = [(1, 3)]\<rparr>"
  note th = blocks_do_not_overlap [of gate_lines all_options 1 "([], [])"]
  have h1: "idx ?s1 < length gate_lines \<and> has_marker (gate_lines ! idx ?s1) \<and>
      next_flag gate_lines ?s1"
    by (simp add: next_flag_def gate_eval del: One_nat_def)
  have h5: "has_marker (gate_lines ! idx ?s5) \<and> \<not> next_flag gate_lines ?s5"
    by (simp add: next_flag_def gate_eval del: One_nat_def)
  from th [THEN conjunct1, rule_format, OF h1]
  have open1: "opened (scan_step all_options 1 gate_lines ?s1) =
      opened ?s1 @ [(idx ?s1, idx (scan_step all_options 1 gate_lines ?s1))]"
    by (simp only:)
  have e1: "idx (scan_step all_options 1 gate_lines ?s1) = 3"
    by (simp add: scan_step_def block_loop.simps Let_def gate_eval del: One_nat_def)
  from th [THEN conjunct2, THEN conjunct1, rule_format, OF h5]
  have pass5: "idx (scan_step all_options 1 gate_lines ?s5) = 6"
      "opened (scan_step all_options 1 gate_lines ?s5) = [(1, 3)]"
    by simp_all
  from open1 e1 have "opened (scan_step all_options 1 gate_lines ?s1) = [(1, 3)]"
    by simp
  with e1 pass5 gate_lines_opened gate_lines_stop(2) show ?thesis
    by (simp only: simp_thms)
qed

end
